theory Spec2Isabelle
  imports Complex_Main
begin

section \<open>Python strings\<close>

text \<open>
  A Python \<^verbatim>\<open>str\<close> is a sequence of Unicode code points and \<^verbatim>\<open>len\<close> counts code
  points, so a string is modelled as a list of code points. \<open>py\<close> turns a literal into
  such a list.
\<close>

type_synonym pychar = nat
type_synonym pystr = "nat list"

definition py :: "string \<Rightarrow> pystr" where
  "py s = map of_char s"

definition NL :: pychar where "NL = 10"
definition CR :: pychar where "CR = 13"
definition TAB :: pychar where "TAB = 9"
definition SP :: pychar where "SP = 32"

text \<open>
  \<^verbatim>\<open>str.strip\<close>, \<^verbatim>\<open>str.isspace\<close> and the pattern \<^verbatim>\<open>\s\<close> of \<^verbatim>\<open>re\<close> on \<^verbatim>\<open>str\<close>
  agree on what whitespace is: the code points below.
\<close>

definition is_space :: "pychar \<Rightarrow> bool" where
  "is_space c \<longleftrightarrow>
     (9 \<le> c \<and> c \<le> 13) \<or> (28 \<le> c \<and> c \<le> 32) \<or> c = 133 \<or> c = 160 \<or> c = 5760 \<or>
     (8192 \<le> c \<and> c \<le> 8202) \<or> c = 8232 \<or> c = 8233 \<or> c = 8239 \<or> c = 8287 \<or> c = 12288"

definition lstrip :: "pystr \<Rightarrow> pystr" where
  "lstrip s = dropWhile is_space s"

definition rstrip :: "pystr \<Rightarrow> pystr" where
  "rstrip s = rev (dropWhile is_space (rev s))"

definition strip :: "pystr \<Rightarrow> pystr" where
  "strip s = rstrip (lstrip s)"

text \<open>\<^verbatim>\<open>sep.join(parts)\<close> and \<^verbatim>\<open>text.split(sep)\<close> for a one-character separator.\<close>

fun join :: "pystr \<Rightarrow> pystr list \<Rightarrow> pystr" where
  "join sep [] = []"
| "join sep [x] = x"
| "join sep (x # y # ys) = x @ sep @ join sep (y # ys)"

fun split_char :: "pychar \<Rightarrow> pystr \<Rightarrow> pystr \<Rightarrow> pystr list" where
  "split_char sep cur [] = [cur]"
| "split_char sep cur (c # cs) =
     (if c = sep then cur # split_char sep [] cs else split_char sep (cur @ [c]) cs)"

section \<open>Regular expressions of the text splitter\<close>

text \<open>
  A compiled pattern is modelled by its anchored matcher: given the rest of the text, the
  length of the match that starts at its first character, if there is one. All patterns
  of the source need at least one character, and \<open>re_split\<close> and \<open>re_findall\<close> scan
  for the leftmost matches as \<^verbatim>\<open>re\<close> does, resuming after each match.
\<close>

type_synonym regex = "pystr \<Rightarrow> nat option"

function re_split :: "regex \<Rightarrow> pystr \<Rightarrow> pystr \<Rightarrow> pystr list" where
  "re_split r cur [] = [cur]"
| "re_split r cur (c # cs) =
     (case r (c # cs) of
        Some (Suc k) \<Rightarrow> cur # re_split r [] (drop k cs)
      | _ \<Rightarrow> re_split r (cur @ [c]) cs)"
  by pat_completeness auto
termination
  by (relation "measure (\<lambda>(r, cur, text). length text)") auto

function re_findall :: "regex \<Rightarrow> pystr \<Rightarrow> pystr list" where
  "re_findall r [] = []"
| "re_findall r (c # cs) =
     (case r (c # cs) of
        Some (Suc k) \<Rightarrow> (c # take k cs) # re_findall r (drop k cs)
      | _ \<Rightarrow> re_findall r cs)"
  by pat_completeness auto
termination
  by (relation "measure (\<lambda>(r, text). length text)") auto

text \<open>
  \<^verbatim>\<open>[.!?]+\s+\<close>: the longest run of terminators, which must be followed by
  whitespace (a shorter run is followed by a terminator, so backtracking finds nothing),
  then the longest run of whitespace.
\<close>

definition is_terminator :: "pychar \<Rightarrow> bool" where
  "is_terminator c \<longleftrightarrow> c = 46 \<or> c = 33 \<or> c = 63"

definition sentence_endings :: regex where
  "sentence_endings text =
     (let run = takeWhile is_terminator text;
          ws = takeWhile is_space (dropWhile is_terminator text)
      in if run \<noteq> [] \<and> ws \<noteq> [] then Some (length run + length ws) else None)"

text \<open>
  \<^verbatim>\<open>\n\s*\n\<close>: a newline, then the longest run of whitespace that is still followed by
  a newline. That newline is whitespace itself, so the match ends at the last newline of
  the whitespace run after the first one.
\<close>

definition paragraph_breaks :: regex where
  "paragraph_breaks text =
     (case text of
        [] \<Rightarrow> None
      | c # cs \<Rightarrow>
          (let upto_nl = rev (dropWhile (\<lambda>d. d \<noteq> NL) (rev (takeWhile is_space cs)))
           in if c = NL \<and> upto_nl \<noteq> [] then Some (1 + length upto_nl) else None))"

text \<open>\<^verbatim>\<open>\s+\<close>: the longest run of whitespace.\<close>

definition word_boundaries :: regex where
  "word_boundaries text =
     (let ws = takeWhile is_space text in if ws \<noteq> [] then Some (length ws) else None)"

section \<open>Text preprocessing\<close>

text \<open>\<^verbatim>\<open>re.sub(r'\r\n', '\n', text)\<close>\<close>

fun sub_crlf :: "pystr \<Rightarrow> pystr" where
  "sub_crlf (c # d # cs) =
     (if c = CR \<and> d = NL then NL # sub_crlf cs else c # sub_crlf (d # cs))"
| "sub_crlf cs = cs"

text \<open>\<^verbatim>\<open>re.sub(r'\r', '\n', text)\<close>\<close>

definition sub_cr :: "pystr \<Rightarrow> pystr" where
  "sub_cr text = map (\<lambda>c. if c = CR then NL else c) text"

text \<open>
  \<^verbatim>\<open>re.sub\<close> for a pattern \<^verbatim>\<open>[class]{n,}\<close>: every longest run of at least \<open>n\<close>
  characters of the class is replaced (\<open>n\<close> is 1 for \<^verbatim>\<open>[class]+\<close>). A run shorter
  than \<open>n\<close> has no match at any of its positions and stays.
\<close>

function re_sub_runs :: "(pychar \<Rightarrow> bool) \<Rightarrow> nat \<Rightarrow> pystr \<Rightarrow> pystr \<Rightarrow> pystr" where
  "re_sub_runs cls n repl [] = []"
| "re_sub_runs cls n repl (c # cs) =
     (if cls c \<and> n \<le> Suc (length (takeWhile cls cs))
      then repl @ re_sub_runs cls n repl (dropWhile cls cs)
      else c # re_sub_runs cls n repl cs)"
  by pat_completeness auto
termination
  by (relation "measure (\<lambda>(cls, n, repl, t). length t)")
     (auto simp: le_imp_less_Suc length_dropWhile_le)

text \<open>\<^verbatim>\<open>re.sub(r'[ \t]+', ' ', text)\<close>\<close>

definition is_blank :: "pychar \<Rightarrow> bool" where
  "is_blank c \<longleftrightarrow> c = SP \<or> c = TAB"

definition sub_blanks :: "pystr \<Rightarrow> pystr" where
  "sub_blanks t = re_sub_runs is_blank 1 [SP] t"

text \<open>\<^verbatim>\<open>re.sub(r'\n{3,}', '\n\n', text)\<close>\<close>

definition sub_newlines :: "pystr \<Rightarrow> pystr" where
  "sub_newlines t = re_sub_runs (\<lambda>c. c = NL) 3 [NL, NL] t"

definition preprocess_text :: "pystr \<Rightarrow> pystr" where
  "preprocess_text text =
     (let text1 = sub_crlf text;
          text2 = sub_cr text1;
          text3 = sub_blanks text2;
          text4 = sub_newlines text3;
          lines = map strip (split_char NL [] text4)
      in strip (join [NL] lines))"

section \<open>Splitting into chunks\<close>

record TextChunk =
  text' :: pystr
  index :: int
  length' :: nat
  original_length :: "nat option"
  processed :: bool
  audio_file :: "pystr option"

text \<open>The constructor \<^verbatim>\<open>TextChunk(text, index, original_length)\<close>.\<close>

definition new_TextChunk :: "pystr \<Rightarrow> int \<Rightarrow> nat option \<Rightarrow> TextChunk" where
  "new_TextChunk t i n =
     \<lparr>text' = strip t, index = i, length' = length (strip t), original_length = n,
      processed = False, audio_file = None\<rparr>"

datatype split_error =
  TextProcessorError    \<comment> \<open>empty text\<close>
| ValueError            \<comment> \<open>\<^verbatim>\<open>range()\<close> with step zero\<close>

text \<open>
  \<^verbatim>\<open>range(0, stop, step)\<close> for a step other than zero, and the slices
  \<^verbatim>\<open>word[i:i + max_chunk_size]\<close> of the hard cut. The hard cut is only reached for a word longer
  than \<open>max_size\<close>, so for a negative \<open>max_size\<close> the range is empty.
\<close>

definition py_range :: "nat \<Rightarrow> int \<Rightarrow> nat list" where
  "py_range stop step =
     (if step < 0 then []
      else map (\<lambda>k. k * nat step) [0 ..< (stop + nat step - 1) div nat step])"

definition hard_cut :: "int \<Rightarrow> pystr \<Rightarrow> pystr list" where
  "hard_cut max_size word =
     map (\<lambda>i. take (nat max_size) (drop i word)) (py_range (length word) max_size)"

fun split_by_words_loop ::
  "int \<Rightarrow> pystr list \<Rightarrow> pystr list \<Rightarrow> pystr \<Rightarrow> split_error + pystr list" where
  "split_by_words_loop max_size [] chunks cur =
     Inr (if cur \<noteq> [] then chunks @ [cur] else chunks)"
| "split_by_words_loop max_size (word # ws) chunks cur =
     (if strip word = [] then split_by_words_loop max_size ws chunks cur
      else
        let potential = cur @ (if cur \<noteq> [] then [SP] else []) @ word
        in if int (length potential) \<le> max_size
           then split_by_words_loop max_size ws chunks potential
           else
             let chunks1 = (if cur \<noteq> [] then chunks @ [cur] else chunks)
             in if int (length word) > max_size
                then (if max_size = 0 then Inl ValueError
                      else split_by_words_loop max_size ws (chunks1 @ hard_cut max_size word) [])
                else split_by_words_loop max_size ws chunks1 word)"

definition split_by_words :: "int \<Rightarrow> pystr \<Rightarrow> split_error + pystr list" where
  "split_by_words max_size t = split_by_words_loop max_size (re_split word_boundaries [] t) [] []"

text \<open>
  The sentences with their terminators put back: \<^verbatim>\<open>sentences[:-1]\<close> paired with
  \<^verbatim>\<open>endings\<close>, then the last sentence.
\<close>

definition sentence_parts :: "pystr \<Rightarrow> pystr list" where
  "sentence_parts t =
     (let sentences = re_split sentence_endings [] t;
          endings = re_findall sentence_endings t
      in concat (map (\<lambda>(sentence, ending).
                        if strip sentence \<noteq> [] then [sentence @ rstrip ending] else [])
                     (zip (butlast sentences) endings))
         @ (if strip (last sentences) \<noteq> [] then [last sentences] else []))"

fun split_by_sentences_loop ::
  "int \<Rightarrow> pystr list \<Rightarrow> pystr list \<Rightarrow> pystr \<Rightarrow> split_error + pystr list" where
  "split_by_sentences_loop max_size [] chunks cur =
     Inr (if cur \<noteq> [] then chunks @ [cur] else chunks)"
| "split_by_sentences_loop max_size (s # ss) chunks cur =
     (let sentence = strip s
      in if sentence = [] then split_by_sentences_loop max_size ss chunks cur
         else
           let potential = cur @ (if cur \<noteq> [] then [SP] else []) @ sentence
           in if int (length potential) \<le> max_size
              then split_by_sentences_loop max_size ss chunks potential
              else
                let chunks1 = (if cur \<noteq> [] then chunks @ [cur] else chunks)
                in if int (length sentence) > max_size
                   then (case split_by_words max_size sentence of
                           Inl e \<Rightarrow> Inl e
                         | Inr word_chunks \<Rightarrow>
                             split_by_sentences_loop max_size ss (chunks1 @ butlast word_chunks)
                               (if word_chunks \<noteq> [] then last word_chunks else []))
                   else split_by_sentences_loop max_size ss chunks1 sentence)"

definition split_by_sentences :: "int \<Rightarrow> pystr \<Rightarrow> split_error + pystr list" where
  "split_by_sentences max_size t = split_by_sentences_loop max_size (sentence_parts t) [] []"

fun split_into_chunks_loop ::
  "int \<Rightarrow> pystr list \<Rightarrow> pystr list \<Rightarrow> pystr \<Rightarrow> split_error + pystr list" where
  "split_into_chunks_loop max_size [] chunks cur =
     Inr (if cur \<noteq> [] then chunks @ [cur] else chunks)"
| "split_into_chunks_loop max_size (p # ps) chunks cur =
     (let paragraph = strip p
      in if paragraph = [] then split_into_chunks_loop max_size ps chunks cur
         else
           let potential = cur @ (if cur \<noteq> [] then [NL, NL] else []) @ paragraph
           in if int (length potential) \<le> max_size
              then split_into_chunks_loop max_size ps chunks potential
              else
                let chunks1 = (if cur \<noteq> [] then chunks @ [cur] else chunks)
                in if int (length paragraph) > max_size
                   then (case split_by_sentences max_size paragraph of
                           Inl e \<Rightarrow> Inl e
                         | Inr sentence_chunks \<Rightarrow>
                             split_into_chunks_loop max_size ps (chunks1 @ butlast sentence_chunks)
                               (if sentence_chunks \<noteq> [] then last sentence_chunks else []))
                   else split_into_chunks_loop max_size ps chunks1 paragraph)"

definition split_into_chunks :: "int \<Rightarrow> pystr \<Rightarrow> split_error + pystr list" where
  "split_into_chunks max_size t =
     split_into_chunks_loop max_size (re_split paragraph_breaks [] t) [] []"

text \<open>
  \<^verbatim>\<open>TextSplitter.split_text\<close>; \<open>max_size\<close> is \<^verbatim>\<open>self.max_chunk_size\<close>. The chunks keep
  the position \<^verbatim>\<open>enumerate\<close> gave them, also when an earlier one was skipped.
\<close>

definition split_text :: "int \<Rightarrow> pystr \<Rightarrow> split_error + TextChunk list" where
  "split_text max_size t =
     (if t = [] \<or> strip t = [] then Inl TextProcessorError
      else
        let processed_text = preprocess_text t
        in if int (length processed_text) \<le> max_size
           then Inr [new_TextChunk processed_text 0 (Some (length t))]
           else
             (case split_into_chunks max_size processed_text of
                Inl e \<Rightarrow> Inl e
              | Inr chunks \<Rightarrow>
                  Inr (concat (map (\<lambda>(i, chunk_text).
                                      if strip chunk_text \<noteq> []
                                      then [new_TextChunk chunk_text (int i) (Some (length t))]
                                      else [])
                                   (enumerate 0 chunks)))))"

text \<open>
  The content a text carries for the coverage property: its characters other than
  whitespace, in order.
\<close>

definition non_whitespace :: "pystr \<Rightarrow> pystr" where
  "non_whitespace s = filter (\<lambda>c. \<not> is_space c) s"

text \<open>A string fits when it is at most \<open>max_size\<close> characters long.\<close>

definition fits :: "int \<Rightarrow> pystr \<Rightarrow> bool" where
  "fits max_size c \<longleftrightarrow> int (length c) \<le> max_size"

section \<open>Cleaning a text for synthesis\<close>

text \<open>
  \<^verbatim>\<open>clean_text_for_synthesis\<close>. The class \<^verbatim>\<open>\w\<close> of Unicode word characters is a table
  of the Python runtime, taken as the parameter \<open>is_word\<close>. The last substitution deletes
  every character outside the allowed set.
\<close>

definition allowed_char :: "(pychar \<Rightarrow> bool) \<Rightarrow> pychar \<Rightarrow> bool" where
  "allowed_char is_word c \<longleftrightarrow>
     is_word c \<or> is_space c \<or>
     c \<in> set [46, 44, 33, 63, 59, 58, 40, 41, 45, 8212, 8211, 34, 171, 187, 39]"

definition clean_text_for_synthesis :: "(pychar \<Rightarrow> bool) \<Rightarrow> pystr \<Rightarrow> pystr" where
  "clean_text_for_synthesis is_word t =
     (let text1 = re_sub_runs is_space 1 [SP] t;
          text2 = re_sub_runs (\<lambda>c. c = 46) 2 [46, 46, 46] text1;
          text3 = re_sub_runs (\<lambda>c. c = 33) 2 [33] text2;
          text4 = re_sub_runs (\<lambda>c. c = 63) 2 [63] text3;
          text5 = filter (allowed_char is_word) text4
      in strip text5)"

section \<open>Rate limiter\<close>

text \<open>
  Time stamps are real numbers of seconds. \<^verbatim>\<open>RateLimiter.__init__\<close> takes the value
  of \<^verbatim>\<open>REQUESTS_PER_SECOND\<close> (35 when it is not set) when no rate, or the rate zero,
  is passed; dividing by a rate of zero raises.
\<close>

record RateLimiter =
  requests_per_second :: real
  min_interval :: real
  last_request_time :: real

datatype limiter_error = ZeroDivisionError

definition new_RateLimiter :: "real option \<Rightarrow> real option \<Rightarrow> limiter_error + RateLimiter" where
  "new_RateLimiter rate env_rate =
     (let from_env = (case env_rate of None \<Rightarrow> 35 | Some r \<Rightarrow> r);
          rps = (case rate of None \<Rightarrow> from_env | Some r \<Rightarrow> if r \<noteq> 0 then r else from_env)
      in if rps = 0 then Inl ZeroDivisionError
         else Inr \<lparr>requests_per_second = rps, min_interval = 1 / rps, last_request_time = 0\<rparr>)"

text \<open>
  \<^verbatim>\<open>wait_if_needed\<close> reads the clock, sleeps if the last grant is too recent, and reads
  the clock again to record the grant. The environment of one call is the pair of the
  first reading and of \<open>extra\<close>, the second reading minus the first reading and the
  time asked of \<^verbatim>\<open>time.sleep\<close>. Any second reading is of this form. \<open>extra\<close> is not
  negative when \<^verbatim>\<open>time.sleep\<close> suspends for at least the time asked and the clock does
  not run backwards.
\<close>

type_synonym clock_reading = "real \<times> real"

definition wait_if_needed :: "clock_reading \<Rightarrow> RateLimiter \<Rightarrow> RateLimiter" where
  "wait_if_needed reading rl =
     (let current_time = fst reading;
          extra = snd reading;
          time_since_last = current_time - last_request_time rl;
          sleep_time = (if time_since_last < min_interval rl
                        then min_interval rl - time_since_last else 0)
      in rl\<lparr>last_request_time := current_time + sleep_time + extra\<rparr>)"

text \<open>The grant times recorded by a sequence of calls, one clock reading per call.\<close>

fun grant_times :: "RateLimiter \<Rightarrow> clock_reading list \<Rightarrow> real list" where
  "grant_times rl [] = []"
| "grant_times rl (reading # readings) =
     last_request_time (wait_if_needed reading rl)
       # grant_times (wait_if_needed reading rl) readings"

section \<open>Speech synthesizer\<close>

text \<open>
  The synthesizer object with its configuration, its rate limiter and its request
  statistics, together with a log of what it did to the outside: the texts passed to
  \<^verbatim>\<open>model.synthesize\<close>, the number of slots acquired, the back-off sleeps and the number
  of credential refreshes. A refresh is best effort: its exceptions are caught and
  logged, and it touches only the token manager and the credentials of the SDK.
\<close>

record SpeechSynthesizer =
  max_retries :: int
  retry_delay :: real
  rate_limiter :: RateLimiter
  request_stats :: "bool list"
  synthesize_calls :: "pystr list"
  acquired :: nat
  slept :: "real list"
  refreshed :: nat

text \<open>
  The settings of \<^verbatim>\<open>SpeechSynthesizer.__init__\<close>: \<^verbatim>\<open>MAX_RETRIES\<close> (default 3),
  \<^verbatim>\<open>RETRY_DELAY\<close> (default 1.0) and a rate limiter built without argument. The
  initialisation of the SDK is taken to have succeeded.
\<close>

definition new_SpeechSynthesizer ::
  "int option \<Rightarrow> real option \<Rightarrow> real option \<Rightarrow> limiter_error + SpeechSynthesizer" where
  "new_SpeechSynthesizer env_max_retries env_retry_delay env_rate =
     (case new_RateLimiter None env_rate of
        Inl e \<Rightarrow> Inl e
      | Inr rl \<Rightarrow>
          Inr \<lparr>max_retries = (case env_max_retries of None \<Rightarrow> 3 | Some n \<Rightarrow> n),
               retry_delay = (case env_retry_delay of None \<Rightarrow> 1 | Some d \<Rightarrow> d),
               rate_limiter = rl, request_stats = [], synthesize_calls = [],
               acquired = 0, slept = [], refreshed = 0\<rparr>)"

text \<open>
  One attempt calls \<^verbatim>\<open>model.synthesize\<close>, exports the result and checks that the file
  exists. What happens is decided outside the program: the synthesis or the export
  raises, the file is missing, or the file is there.
\<close>

datatype attempt_outcome =
  Created
| SynthesizeRaised pystr
| ExportRaised pystr
| NotCreated

text \<open>
  The environment of a run: the clock reading of each acquired slot, the outcome of each
  call of \<^verbatim>\<open>model.synthesize\<close> (numbered over the whole run) on its text, the word
  characters, whether the temporary directory can be created, the path
  \<^verbatim>\<open>os.path.join(temp_dir, f"chunk_{index:04d}.wav")\<close> of a chunk, and the longest
  time in seconds that \<^verbatim>\<open>time.sleep\<close> can represent on the platform.
\<close>

record world =
  clock :: "nat \<Rightarrow> clock_reading"
  outcome :: "nat \<Rightarrow> pystr \<Rightarrow> attempt_outcome"
  is_word :: "pychar \<Rightarrow> bool"
  mkdir_ok :: bool
  chunk_path :: "int \<Rightarrow> pystr"
  max_sleep :: real

datatype synth_error =
  EmptyAfterCleaning int                    \<comment> \<open>\<^verbatim>\<open>SynthesizerError\<close>: empty text after cleaning\<close>
| OSError                                   \<comment> \<open>\<^verbatim>\<open>ensure_directory\<close> failed\<close>
| RetriesExhausted int int attempt_outcome  \<comment> \<open>\<^verbatim>\<open>SynthesizerError\<close>: chunk, attempts, last error\<close>
| SleepValueError                           \<comment> \<open>\<^verbatim>\<open>ValueError\<close>: negative back-off sleep\<close>
| SleepOverflowError                        \<comment> \<open>\<^verbatim>\<open>OverflowError\<close>: back-off sleep out of range\<close>
| EmptyChunkList                            \<comment> \<open>\<^verbatim>\<open>SynthesizerError\<close>: no chunks given\<close>
| NothingSynthesized                        \<comment> \<open>\<^verbatim>\<open>SynthesizerError\<close>: not one chunk synthesized\<close>

type_synonym chunk_result = "(synth_error + pystr option) \<times> TextChunk \<times> SpeechSynthesizer"

text \<open>
  The back-off of the handler, \<^verbatim>\<open>sleep_time = self.retry_delay * (2 ** attempt)\<close> and
  \<^verbatim>\<open>time.sleep(sleep_time)\<close>. The product raises \<^verbatim>\<open>OverflowError\<close> when the power of
  two is too large for a float (from \<open>2 ^ 1024\<close>). \<^verbatim>\<open>time.sleep\<close> raises
  \<^verbatim>\<open>OverflowError\<close> for a time out of the range of the platform, checked first, and
  \<^verbatim>\<open>ValueError\<close> for a negative time. Otherwise the time is slept.
\<close>

definition backoff_sleep :: "world \<Rightarrow> real \<Rightarrow> nat \<Rightarrow> synth_error + real" where
  "backoff_sleep w delay attempt =
     (if 1024 \<le> attempt then Inl SleepOverflowError
      else
        let sleep_time = delay * 2 ^ attempt
        in if sleep_time < - max_sleep w \<or> max_sleep w < sleep_time then Inl SleepOverflowError
           else if sleep_time < 0 then Inl SleepValueError
           else Inr sleep_time)"

text \<open>
  The retry loop \<^verbatim>\<open>for attempt in range(self.max_retries)\<close> of \<^verbatim>\<open>synthesize_chunk\<close>,
  over the attempt numbers still to come. When the range is exhausted without a return
  the function falls off its end and returns \<^verbatim>\<open>None\<close>. An error of the back-off
  sleep is raised inside the handler, so it leaves the loop and the function, before the
  credentials are refreshed.
\<close>

fun retry_loop ::
  "world \<Rightarrow> TextChunk \<Rightarrow> pystr \<Rightarrow> pystr \<Rightarrow> nat list \<Rightarrow> SpeechSynthesizer \<Rightarrow> chunk_result" where
  "retry_loop w chunk clean_text output_path [] self = (Inr None, chunk, self)"
| "retry_loop w chunk clean_text output_path (attempt # rest) self =
     (let self1 = self\<lparr>rate_limiter := wait_if_needed (clock w (acquired self)) (rate_limiter self),
                       acquired := Suc (acquired self)\<rparr>;
          result = outcome w (length (synthesize_calls self1)) clean_text;
          self2 = self1\<lparr>synthesize_calls := synthesize_calls self1 @ [clean_text]\<rparr>
      in if result = Created
         then (Inr (Some output_path),
               chunk\<lparr>processed := True, audio_file := Some output_path\<rparr>,
               self2\<lparr>request_stats := request_stats self2 @ [True]\<rparr>)
         else
           let self3 = self2\<lparr>request_stats := request_stats self2 @ [False]\<rparr>
           in if int attempt < max_retries self - 1
              then (case backoff_sleep w (retry_delay self) attempt of
                      Inl e \<Rightarrow> (Inl e, chunk, self3)
                    | Inr sleep_time \<Rightarrow>
                        retry_loop w chunk clean_text output_path rest
                          (self3\<lparr>slept := slept self3 @ [sleep_time],
                                 refreshed := Suc (refreshed self3)\<rparr>))
              else (Inl (RetriesExhausted (index chunk) (max_retries self) result), chunk, self3))"

definition synthesize_chunk ::
  "world \<Rightarrow> TextChunk \<Rightarrow> pystr option \<Rightarrow> SpeechSynthesizer \<Rightarrow> chunk_result" where
  "synthesize_chunk w chunk output_path self =
     (if processed chunk then (Inr (audio_file chunk), chunk, self)
      else
        let clean_text = clean_text_for_synthesis (is_word w) (text' chunk)
        in if strip clean_text = [] then (Inl (EmptyAfterCleaning (index chunk)), chunk, self)
           else
             (case output_path of
                None \<Rightarrow>
                  if mkdir_ok w
                  then retry_loop w chunk clean_text (chunk_path w (index chunk))
                         [0 ..< nat (max_retries self)] self
                  else (Inl OSError, chunk, self)
              | Some path \<Rightarrow>
                  retry_loop w chunk clean_text path [0 ..< nat (max_retries self)] self))"

text \<open>
  The loop of \<^verbatim>\<open>synthesize_chunks\<close>: the list \<^verbatim>\<open>audio_files\<close> with one entry per chunk
  (\<^verbatim>\<open>None\<close> where the call raised), the counter \<^verbatim>\<open>successful_chunks\<close>, the chunks as
  the calls left them, and the synthesizer. The chunks of the list are distinct objects.
  Logging, the statistics of the text and the progress bar are left out, and an
  interruption from the keyboard is not modelled.
\<close>

fun synthesize_loop ::
  "world \<Rightarrow> TextChunk list \<Rightarrow> SpeechSynthesizer \<Rightarrow>
   pystr option list \<times> nat \<times> TextChunk list \<times> SpeechSynthesizer" where
  "synthesize_loop w [] self = ([], 0, [], self)"
| "synthesize_loop w (chunk # chunks) self =
     (case synthesize_chunk w chunk None self of
        (result, chunk1, self1) \<Rightarrow>
          (case synthesize_loop w chunks self1 of
             (audio_files, successful_chunks, chunks1, self2) \<Rightarrow>
               (case result of
                  Inr path \<Rightarrow>
                    (path # audio_files, Suc successful_chunks, chunk1 # chunks1, self2)
                | Inl e \<Rightarrow>
                    (None # audio_files, successful_chunks, chunk1 # chunks1, self2))))"

text \<open>
  \<^verbatim>\<open>synthesize_chunks\<close> returns the entries of \<^verbatim>\<open>audio_files\<close> that are not \<^verbatim>\<open>None\<close>,
  and raises when there is none. The model returns the chunks and the synthesizer as
  well, since the calls change them.
\<close>

definition synthesize_chunks ::
  "world \<Rightarrow> TextChunk list \<Rightarrow> SpeechSynthesizer \<Rightarrow>
   (synth_error + pystr list) \<times> TextChunk list \<times> SpeechSynthesizer" where
  "synthesize_chunks w chunks self =
     (if chunks = [] then (Inl EmptyChunkList, chunks, self)
      else
        (case synthesize_loop w chunks self of
           (audio_files, successful_chunks, chunks1, self1) \<Rightarrow>
             (let valid_audio_files = [f. Some f \<leftarrow> audio_files]
              in if valid_audio_files = [] then (Inl NothingSynthesized, chunks1, self1)
                 else (Inr valid_audio_files, chunks1, self1))))"

text \<open>
  The two fields that record the synthesis of a chunk go together: the constructor sets
  neither, \<open>synthesize_chunk\<close> sets both.
\<close>

definition chunk_ok :: "TextChunk \<Rightarrow> bool" where
  "chunk_ok c \<longleftrightarrow> (processed c \<longleftrightarrow> audio_file c \<noteq> None)"

section \<open>Token manager\<close>

text \<open>
  The body of the identity endpoint's answer as \<^verbatim>\<open>response.json()\<close> returns it, with
  Python's truth value of each kind of value.
\<close>

datatype json =
  JNull
| JBool bool
| JNum real
| JStr pystr
| JArr "json list"
| JObj "(pystr \<times> json) list"

fun truthy :: "json \<Rightarrow> bool" where
  "truthy JNull = False"
| "truthy (JBool b) = b"
| "truthy (JNum x) = (x \<noteq> 0)"
| "truthy (JStr s) = (s \<noteq> [])"
| "truthy (JArr xs) = (xs \<noteq> [])"
| "truthy (JObj kvs) = (kvs \<noteq> [])"

datatype auth_cause =
  KeyDataNotLoaded
| JwtEncodeError
| RequestException      \<comment> \<open>network error, time-out, or a status that is not 2xx\<close>
| JSONDecodeError       \<comment> \<open>the body is not JSON\<close>
| KeyError              \<comment> \<open>no member \<^verbatim>\<open>iamToken\<close>\<close>
| TypeError             \<comment> \<open>the body is not an object\<close>

datatype auth_error = YandexAuthError auth_cause

text \<open>\<^verbatim>\<open>value[key]\<close> and \<^verbatim>\<open>value.get(key)\<close> on a parsed body.\<close>

definition getitem :: "json \<Rightarrow> pystr \<Rightarrow> auth_cause + json" where
  "getitem v key =
     (case v of
        JObj kvs \<Rightarrow> (case map_of kvs key of None \<Rightarrow> Inl KeyError | Some x \<Rightarrow> Inr x)
      | _ \<Rightarrow> Inl TypeError)"

definition dict_get :: "json \<Rightarrow> pystr \<Rightarrow> json" where
  "dict_get v key =
     (case v of
        JObj kvs \<Rightarrow> (case map_of kvs key of None \<Rightarrow> JNull | Some x \<Rightarrow> x)
      | _ \<Rightarrow> JNull)"

text \<open>
  Times of \<^verbatim>\<open>datetime\<close> are counted in microseconds. The key material and the library
  calls are the environment of one call of \<^verbatim>\<open>get_iam_token\<close>: the two readings of
  \<^verbatim>\<open>datetime.now()\<close>, the reading of \<^verbatim>\<open>time.time()\<close>, \<^verbatim>\<open>jwt.encode\<close> (\<open>None\<close> when it
  raises), the POST to the identity endpoint, and \<^verbatim>\<open>datetime.fromisoformat\<close>
  (\<open>None\<close> for a \<^verbatim>\<open>ValueError\<close>).
\<close>

type_synonym datetime = int

definition minutes :: "int \<Rightarrow> int" where
  "minutes n = n * 60000000"

definition hours :: "int \<Rightarrow> int" where
  "hours n = n * 3600000000"

record authorized_key =
  key_id :: pystr
  service_account_id :: pystr
  private_key :: pystr

datatype exchange_result =
  RequestFailed         \<comment> \<open>\<^verbatim>\<open>requests.exceptions.RequestException\<close>, also from \<^verbatim>\<open>raise_for_status\<close>\<close>
| BodyNotJson           \<comment> \<open>\<^verbatim>\<open>json.JSONDecodeError\<close>\<close>
| Body json

record auth_world =
  now_at_check :: datetime
  now_at_store :: datetime
  time_time :: int
  jwt_encode :: "authorized_key \<Rightarrow> int \<Rightarrow> int \<Rightarrow> pystr option"
  post_tokens :: "pystr \<Rightarrow> exchange_result"
  fromisoformat :: "pystr \<Rightarrow> datetime option"

record TokenManager =
  key_data :: "authorized_key option"
  iam_token :: json
  token_expires_at :: "datetime option"

definition create_jwt_token :: "auth_world \<Rightarrow> TokenManager \<Rightarrow> auth_cause + pystr" where
  "create_jwt_token w tm =
     (case key_data tm of
        None \<Rightarrow> Inl KeyDataNotLoaded
      | Some key \<Rightarrow>
          (let now = time_time w
           in case jwt_encode w key now (now + 3600) of
                None \<Rightarrow> Inl JwtEncodeError
              | Some jwt_token \<Rightarrow> Inr jwt_token))"

definition exchange_jwt_for_iam :: "auth_world \<Rightarrow> pystr \<Rightarrow> auth_cause + json" where
  "exchange_jwt_for_iam w jwt_token =
     (case post_tokens w jwt_token of
        RequestFailed \<Rightarrow> Inl RequestException
      | BodyNotJson \<Rightarrow> Inl JSONDecodeError
      | Body result \<Rightarrow> Inr result)"

definition is_token_expired :: "datetime \<Rightarrow> TokenManager \<Rightarrow> bool" where
  "is_token_expired now tm =
     (case token_expires_at tm of
        None \<Rightarrow> True
      | Some expires_at \<Rightarrow> now + minutes 10 \<ge> expires_at)"

text \<open>
  The parsing of \<^verbatim>\<open>expiresAt\<close>: \<open>None\<close> stands for the \<^verbatim>\<open>ValueError\<close> or
  \<^verbatim>\<open>AttributeError\<close> that the source catches (a value that is not a string has no
  \<^verbatim>\<open>replace\<close>; a string with two dots does not unpack into two parts).
\<close>

definition ljust :: "nat \<Rightarrow> pychar \<Rightarrow> pystr \<Rightarrow> pystr" where
  "ljust n fill s = s @ replicate (n - length s) fill"

definition parse_expires_at :: "(pystr \<Rightarrow> datetime option) \<Rightarrow> json \<Rightarrow> datetime option" where
  "parse_expires_at parse expires_at_str =
     (case expires_at_str of
        JStr s \<Rightarrow>
          (let clean_time = filter (\<lambda>c. c \<noteq> 90) s
           in if 46 \<in> set clean_time
              then (case split_char 46 [] clean_time of
                      [time_part, fraction] \<Rightarrow>
                        parse (time_part @ [46] @ ljust 6 48 (take 6 fraction))
                    | _ \<Rightarrow> None)
              else parse clean_time)
      | _ \<Rightarrow> None)"

text \<open>
  \<^verbatim>\<open>get_iam_token\<close> returns its result, the token manager after the call, and the
  assertions it posted to the identity endpoint (one per exchange).
\<close>

definition get_iam_token ::
  "auth_world \<Rightarrow> bool \<Rightarrow> TokenManager \<Rightarrow> (auth_error + json) \<times> TokenManager \<times> pystr list" where
  "get_iam_token w force_refresh tm =
     (if \<not> force_refresh \<and> truthy (iam_token tm) \<and> \<not> is_token_expired (now_at_check w) tm
      then (Inr (iam_token tm), tm, [])
      else
        (case create_jwt_token w tm of
           Inl e \<Rightarrow> (Inl (YandexAuthError e), tm, [])
         | Inr jwt_token \<Rightarrow>
             (case exchange_jwt_for_iam w jwt_token of
                Inl e \<Rightarrow> (Inl (YandexAuthError e), tm, [jwt_token])
              | Inr iam_response \<Rightarrow>
                  (case getitem iam_response (py ''iamToken'') of
                     Inl e \<Rightarrow> (Inl (YandexAuthError e), tm, [jwt_token])
                   | Inr token \<Rightarrow>
                       (let expires_at_str = dict_get iam_response (py ''expiresAt'');
                            expires_at =
                              (if truthy expires_at_str
                               then (case parse_expires_at (fromisoformat w) expires_at_str of
                                       Some d \<Rightarrow> d
                                     | None \<Rightarrow> now_at_store w + hours 12)
                               else now_at_store w + hours 12)
                        in (Inr token,
                            tm\<lparr>iam_token := token, token_expires_at := Some expires_at\<rparr>,
                            [jwt_token]))))))"

text \<open>\<^verbatim>\<open>refresh_token\<close> is \<^verbatim>\<open>get_iam_token(force_refresh=True)\<close>.\<close>

definition refresh_token ::
  "auth_world \<Rightarrow> TokenManager \<Rightarrow> (auth_error + json) \<times> TokenManager \<times> pystr list" where
  "refresh_token w tm = get_iam_token w True tm"

text \<open>
  The exchanges that fail: the request raises, the body is not JSON, or the body has no
  member \<^verbatim>\<open>iamToken\<close> to read.
\<close>

definition exchange_fails :: "exchange_result \<Rightarrow> bool" where
  "exchange_fails r =
     (case r of
        RequestFailed \<Rightarrow> True
      | BodyNotJson \<Rightarrow> True
      | Body b \<Rightarrow> isl (getitem b (py ''iamToken'')))"

section \<open>Example data\<close>

text \<open>
  A world in which \<^verbatim>\<open>model.synthesize\<close> raises on the text \<^verbatim>\<open>b\<close> and succeeds on any
  other, a world in which it always raises, the synthesizer the constructor builds when
  no setting is given, and a token manager with a cached token.
\<close>

definition example_world :: world where
  "example_world =
     \<lparr>clock = (\<lambda>n. (real n, 0)),
      outcome = (\<lambda>n t. if t = py ''b'' then SynthesizeRaised (py ''error'') else Created),
      is_word = (\<lambda>c. 97 \<le> c \<and> c \<le> 122),
      mkdir_ok = True,
      chunk_path = (\<lambda>i. if i = 0 then py ''0.wav'' else if i = 1 then py ''1.wav''
                          else py ''2.wav''),
      max_sleep = 9223372036\<rparr>"


definition example_synthesizer :: SpeechSynthesizer where
  "example_synthesizer =
     \<lparr>max_retries = 3, retry_delay = 1,
      rate_limiter = \<lparr>requests_per_second = 35, min_interval = 1 / 35, last_request_time = 0\<rparr>,
      request_stats = [], synthesize_calls = [], acquired = 0, slept = [], refreshed = 0\<rparr>"

definition example_manager :: TokenManager where
  "example_manager =
     \<lparr>key_data = Some \<lparr>key_id = py ''id'', service_account_id = py ''sa'',
                         private_key = py ''pem''\<rparr>,
      iam_token = JStr (py ''t1''),
      token_expires_at = Some (hours 12)\<rparr>"

definition example_auth_world :: "datetime \<Rightarrow> exchange_result \<Rightarrow> auth_world" where
  "example_auth_world now answer =
     \<lparr>now_at_check = now, now_at_store = now, time_time = 0,
      jwt_encode = (\<lambda>key iat exp. Some (py ''jwt'')),
      post_tokens = (\<lambda>jwt. answer),
      fromisoformat = (\<lambda>s. None)\<rparr>"

section \<open>Lemmas about the text splitter\<close>

subsection \<open>Whitespace\<close>

lemma set_dropWhile_keeps: "c \<in> set xs \<Longrightarrow> \<not> P c \<Longrightarrow> c \<in> set (dropWhile P xs)"
  by (induction xs) auto

lemma set_strip_subset: "set (strip s) \<subseteq> set s"
proof -
  have "set (strip s) \<subseteq> set (dropWhile is_space s)"
    using set_dropWhileD [of _ is_space "rev (dropWhile is_space s)"]
    by (auto simp: strip_def rstrip_def lstrip_def)
  also have "\<dots> \<subseteq> set s"
    using set_dropWhileD [of _ is_space s] by auto
  finally show ?thesis .
qed

lemma nonspace_in_strip: "c \<in> set s \<Longrightarrow> \<not> is_space c \<Longrightarrow> c \<in> set (strip s)"
  by (simp add: strip_def rstrip_def lstrip_def set_dropWhile_keeps)

lemma strip_eq_Nil_iff: "strip s = [] \<longleftrightarrow> (\<forall>c\<in>set s. is_space c)"
proof
  assume "strip s = []"
  then show "\<forall>c\<in>set s. is_space c"
    using nonspace_in_strip [of _ s] by fastforce
next
  assume a: "\<forall>c\<in>set s. is_space c"
  then show "strip s = []"
    using set_dropWhileD [of _ is_space s]
    by (auto simp: strip_def rstrip_def lstrip_def)
qed

lemma length_strip_le: "length (strip s) \<le> length s"
proof -
  have "length (strip s) \<le> length (dropWhile is_space s)"
    using length_dropWhile_le [of is_space "rev (dropWhile is_space s)"]
    by (simp add: strip_def rstrip_def lstrip_def)
  then show ?thesis
    using length_dropWhile_le [of is_space s] by linarith
qed

lemma strip_strip_nonempty: "strip s \<noteq> [] \<Longrightarrow> strip (strip s) \<noteq> []"
proof -
  assume "strip s \<noteq> []"
  then obtain c where c: "c \<in> set s" "\<not> is_space c"
    using strip_eq_Nil_iff by blast
  then have "c \<in> set (strip s)"
    by (rule nonspace_in_strip)
  with c(2) show ?thesis
    using strip_eq_Nil_iff by blast
qed

subsection \<open>Length bound\<close>

lemma py_range_nonneg: "i \<in> set (py_range stop step) \<Longrightarrow> 0 \<le> step"
  by (cases "step < 0") (simp_all add: py_range_def)

lemma hard_cut_fits:
  assumes "p \<in> set (hard_cut max_size w)"
  shows "fits max_size p"
proof -
  from assms obtain i where p: "p = take (nat max_size) (drop i w)"
    and i: "i \<in> set (py_range (length w) max_size)"
    unfolding hard_cut_def by auto
  from i have "0 \<le> max_size"
    by (rule py_range_nonneg)
  moreover have "length p \<le> nat max_size"
    by (simp add: p)
  ultimately show ?thesis
    unfolding fits_def by linarith
qed

subsection \<open>Invariants of the packing loops\<close>

lemma split_by_words_loop_invariant:
  assumes step: "\<And>cur w. w \<in> W \<Longrightarrow> strip w \<noteq> [] \<Longrightarrow> cur = [] \<or> Q cur \<Longrightarrow>
        int (length (cur @ (if cur \<noteq> [] then [SP] else []) @ w)) \<le> max_size \<Longrightarrow>
        Q (cur @ (if cur \<noteq> [] then [SP] else []) @ w)"
    and cut: "\<And>w p. w \<in> W \<Longrightarrow> strip w \<noteq> [] \<Longrightarrow> max_size \<noteq> 0 \<Longrightarrow>
        p \<in> set (hard_cut max_size w) \<Longrightarrow> Q p"
  shows "split_by_words_loop max_size ws chunks cur = Inr r \<Longrightarrow> set ws \<subseteq> W \<Longrightarrow>
    \<forall>c\<in>set chunks. Q c \<Longrightarrow> cur = [] \<or> Q cur \<Longrightarrow> \<forall>c\<in>set r. Q c"
proof (induction ws arbitrary: chunks cur)
  case Nil
  then show ?case by (auto split: if_splits)
next
  case (Cons word ws)
  have IH: "\<And>chunks cur. split_by_words_loop max_size ws chunks cur = Inr r \<Longrightarrow>
      \<forall>c\<in>set chunks. Q c \<Longrightarrow> cur = [] \<or> Q cur \<Longrightarrow> \<forall>c\<in>set r. Q c"
    using Cons.IH Cons.prems(2) by simp
  have wW: "word \<in> W"
    using Cons.prems(2) by simp
  show ?case
  proof (cases "strip word = []")
    case True
    with Cons.prems(1) have "split_by_words_loop max_size ws chunks cur = Inr r"
      by simp
    then show ?thesis
      using IH Cons.prems(3,4) by blast
  next
    case False
    define potential where "potential = cur @ (if cur \<noteq> [] then [SP] else []) @ word"
    define chunks1 where "chunks1 = (if cur \<noteq> [] then chunks @ [cur] else chunks)"
    have c1: "\<forall>c\<in>set chunks1. Q c"
      using Cons.prems(3,4) by (auto simp: chunks1_def)
    have unfold: "split_by_words_loop max_size (word # ws) chunks cur =
        (if int (length potential) \<le> max_size
         then split_by_words_loop max_size ws chunks potential
         else if int (length word) > max_size
              then (if max_size = 0 then Inl ValueError
                    else split_by_words_loop max_size ws (chunks1 @ hard_cut max_size word) [])
              else split_by_words_loop max_size ws chunks1 word)"
      using False by (simp add: Let_def potential_def chunks1_def)
    show ?thesis
    proof (cases "int (length potential) \<le> max_size")
      case True
      then have "split_by_words_loop max_size ws chunks potential = Inr r"
        using Cons.prems(1) unfold by simp
      moreover have "Q potential"
        unfolding potential_def
        using step [of word cur] wW False Cons.prems(4) True
        by (simp add: potential_def)
      ultimately show ?thesis
        using IH Cons.prems(3) by blast
    next
      case big: False
      show ?thesis
      proof (cases "int (length word) > max_size")
        case True
        then have nz: "max_size \<noteq> 0"
          and run: "split_by_words_loop max_size ws (chunks1 @ hard_cut max_size word) [] = Inr r"
          using Cons.prems(1) unfold big by (auto split: if_splits)
        have "\<forall>c\<in>set (chunks1 @ hard_cut max_size word). Q c"
          using c1 cut [of word] wW False nz by auto
        then show ?thesis
          using IH run by blast
      next
        case small: False
        then have "split_by_words_loop max_size ws chunks1 word = Inr r"
          using Cons.prems(1) unfold big by simp
        moreover have "Q word"
          using step [of word "[]"] wW False small by simp
        ultimately show ?thesis
          using IH c1 by blast
      qed
    qed
  qed
qed

lemma split_by_sentences_loop_invariant:
  assumes step: "\<And>cur u. u \<in> W \<Longrightarrow> strip u \<noteq> [] \<Longrightarrow> cur = [] \<or> Q cur \<Longrightarrow>
        int (length (cur @ (if cur \<noteq> [] then [SP] else []) @ strip u)) \<le> max_size \<Longrightarrow>
        Q (cur @ (if cur \<noteq> [] then [SP] else []) @ strip u)"
    and sub: "\<And>u r c. u \<in> W \<Longrightarrow> strip u \<noteq> [] \<Longrightarrow>
        split_by_words max_size (strip u) = Inr r \<Longrightarrow> c \<in> set r \<Longrightarrow> Q c"
  shows "split_by_sentences_loop max_size us chunks cur = Inr r \<Longrightarrow> set us \<subseteq> W \<Longrightarrow>
    \<forall>c\<in>set chunks. Q c \<Longrightarrow> cur = [] \<or> Q cur \<Longrightarrow> \<forall>c\<in>set r. Q c"
proof (induction us arbitrary: chunks cur)
  case Nil
  then show ?case by (auto split: if_splits)
next
  case (Cons u us)
  have IH: "\<And>chunks cur. split_by_sentences_loop max_size us chunks cur = Inr r \<Longrightarrow>
      \<forall>c\<in>set chunks. Q c \<Longrightarrow> cur = [] \<or> Q cur \<Longrightarrow> \<forall>c\<in>set r. Q c"
    using Cons.IH Cons.prems(2) by simp
  have uW: "u \<in> W"
    using Cons.prems(2) by simp
  show ?case
  proof (cases "strip u = []")
    case True
    with Cons.prems(1) have "split_by_sentences_loop max_size us chunks cur = Inr r"
      by simp
    then show ?thesis
      using IH Cons.prems(3,4) by blast
  next
    case False
    define unit where "unit = strip u"
    define potential where "potential = cur @ (if cur \<noteq> [] then [SP] else []) @ unit"
    define chunks1 where "chunks1 = (if cur \<noteq> [] then chunks @ [cur] else chunks)"
    have c1: "\<forall>c\<in>set chunks1. Q c"
      using Cons.prems(3,4) by (auto simp: chunks1_def)
    have unfold: "split_by_sentences_loop max_size (u # us) chunks cur =
        (if int (length potential) \<le> max_size
         then split_by_sentences_loop max_size us chunks potential
         else if int (length unit) > max_size
              then (case split_by_words max_size unit of
                      Inl e \<Rightarrow> Inl e
                    | Inr parts \<Rightarrow>
                        split_by_sentences_loop max_size us (chunks1 @ butlast parts)
                          (if parts \<noteq> [] then last parts else []))
              else split_by_sentences_loop max_size us chunks1 unit)"
      unfolding potential_def chunks1_def unit_def
      using False by (auto simp: Let_def split: sum.splits)
    show ?thesis
    proof (cases "int (length potential) \<le> max_size")
      case True
      then have "split_by_sentences_loop max_size us chunks potential = Inr r"
        using Cons.prems(1) unfold by simp
      moreover have "Q potential"
        using step [of u cur] uW False Cons.prems(4) True
        by (simp add: potential_def unit_def)
      ultimately show ?thesis
        using IH Cons.prems(3) by blast
    next
      case big: False
      show ?thesis
      proof (cases "int (length unit) > max_size")
        case True
        then obtain parts where parts: "split_by_words max_size unit = Inr parts"
          and run: "split_by_sentences_loop max_size us (chunks1 @ butlast parts)
                      (if parts \<noteq> [] then last parts else []) = Inr r"
          using Cons.prems(1) unfold big by (auto split: sum.splits)
        have Qparts: "\<forall>c\<in>set parts. Q c"
          using sub [of u parts] uW False parts by (simp add: unit_def)
        then have "\<forall>c\<in>set (chunks1 @ butlast parts). Q c"
          using c1 in_set_butlastD [of _ parts] by auto
        moreover have "(if parts \<noteq> [] then last parts else []) = [] \<or>
            Q (if parts \<noteq> [] then last parts else [])"
          using Qparts last_in_set [of parts] by auto
        ultimately show ?thesis
          using IH run by blast
      next
        case small: False
        then have "split_by_sentences_loop max_size us chunks1 unit = Inr r"
          using Cons.prems(1) unfold big by simp
        moreover have "Q unit"
          using step [of u "[]"] uW False small by (simp add: unit_def)
        ultimately show ?thesis
          using IH c1 by blast
      qed
    qed
  qed
qed

lemma split_into_chunks_loop_invariant:
  assumes step: "\<And>cur u. u \<in> W \<Longrightarrow> strip u \<noteq> [] \<Longrightarrow> cur = [] \<or> Q cur \<Longrightarrow>
        int (length (cur @ (if cur \<noteq> [] then [NL, NL] else []) @ strip u)) \<le> max_size \<Longrightarrow>
        Q (cur @ (if cur \<noteq> [] then [NL, NL] else []) @ strip u)"
    and sub: "\<And>u r c. u \<in> W \<Longrightarrow> strip u \<noteq> [] \<Longrightarrow>
        split_by_sentences max_size (strip u) = Inr r \<Longrightarrow> c \<in> set r \<Longrightarrow> Q c"
  shows "split_into_chunks_loop max_size us chunks cur = Inr r \<Longrightarrow> set us \<subseteq> W \<Longrightarrow>
    \<forall>c\<in>set chunks. Q c \<Longrightarrow> cur = [] \<or> Q cur \<Longrightarrow> \<forall>c\<in>set r. Q c"
proof (induction us arbitrary: chunks cur)
  case Nil
  then show ?case by (auto split: if_splits)
next
  case (Cons u us)
  have IH: "\<And>chunks cur. split_into_chunks_loop max_size us chunks cur = Inr r \<Longrightarrow>
      \<forall>c\<in>set chunks. Q c \<Longrightarrow> cur = [] \<or> Q cur \<Longrightarrow> \<forall>c\<in>set r. Q c"
    using Cons.IH Cons.prems(2) by simp
  have uW: "u \<in> W"
    using Cons.prems(2) by simp
  show ?case
  proof (cases "strip u = []")
    case True
    with Cons.prems(1) have "split_into_chunks_loop max_size us chunks cur = Inr r"
      by simp
    then show ?thesis
      using IH Cons.prems(3,4) by blast
  next
    case False
    define unit where "unit = strip u"
    define potential where "potential = cur @ (if cur \<noteq> [] then [NL, NL] else []) @ unit"
    define chunks1 where "chunks1 = (if cur \<noteq> [] then chunks @ [cur] else chunks)"
    have c1: "\<forall>c\<in>set chunks1. Q c"
      using Cons.prems(3,4) by (auto simp: chunks1_def)
    have unfold: "split_into_chunks_loop max_size (u # us) chunks cur =
        (if int (length potential) \<le> max_size
         then split_into_chunks_loop max_size us chunks potential
         else if int (length unit) > max_size
              then (case split_by_sentences max_size unit of
                      Inl e \<Rightarrow> Inl e
                    | Inr parts \<Rightarrow>
                        split_into_chunks_loop max_size us (chunks1 @ butlast parts)
                          (if parts \<noteq> [] then last parts else []))
              else split_into_chunks_loop max_size us chunks1 unit)"
      unfolding potential_def chunks1_def unit_def
      using False by (auto simp: Let_def split: sum.splits)
    show ?thesis
    proof (cases "int (length potential) \<le> max_size")
      case True
      then have "split_into_chunks_loop max_size us chunks potential = Inr r"
        using Cons.prems(1) unfold by simp
      moreover have "Q potential"
        using step [of u cur] uW False Cons.prems(4) True
        by (simp add: potential_def unit_def)
      ultimately show ?thesis
        using IH Cons.prems(3) by blast
    next
      case big: False
      show ?thesis
      proof (cases "int (length unit) > max_size")
        case True
        then obtain parts where parts: "split_by_sentences max_size unit = Inr parts"
          and run: "split_into_chunks_loop max_size us (chunks1 @ butlast parts)
                      (if parts \<noteq> [] then last parts else []) = Inr r"
          using Cons.prems(1) unfold big by (auto split: sum.splits)
        have Qparts: "\<forall>c\<in>set parts. Q c"
          using sub [of u parts] uW False parts by (simp add: unit_def)
        then have "\<forall>c\<in>set (chunks1 @ butlast parts). Q c"
          using c1 in_set_butlastD [of _ parts] by auto
        moreover have "(if parts \<noteq> [] then last parts else []) = [] \<or>
            Q (if parts \<noteq> [] then last parts else [])"
          using Qparts last_in_set [of parts] by auto
        ultimately show ?thesis
          using IH run by blast
      next
        case small: False
        then have "split_into_chunks_loop max_size us chunks1 unit = Inr r"
          using Cons.prems(1) unfold big by simp
        moreover have "Q unit"
          using step [of u "[]"] uW False small by (simp add: unit_def)
        ultimately show ?thesis
          using IH c1 by blast
      qed
    qed
  qed
qed

subsection \<open>Every chunk fits\<close>

lemma split_by_words_fits:
  assumes "split_by_words max_size t = Inr r" and "c \<in> set r"
  shows "fits max_size c"
proof -
  have "\<forall>c\<in>set r. fits max_size c"
  proof (rule split_by_words_loop_invariant [where Q = "fits max_size" and W = UNIV])
    show "split_by_words_loop max_size (re_split word_boundaries [] t) [] [] = Inr r"
      using assms(1) by (simp add: split_by_words_def)
  qed (simp_all add: fits_def hard_cut_fits [unfolded fits_def])
  with assms(2) show ?thesis by blast
qed

lemma split_by_sentences_fits:
  assumes "split_by_sentences max_size t = Inr r" and "c \<in> set r"
  shows "fits max_size c"
proof -
  have "\<forall>c\<in>set r. fits max_size c"
  proof (rule split_by_sentences_loop_invariant [where Q = "fits max_size" and W = UNIV])
    show "split_by_sentences_loop max_size (sentence_parts t) [] [] = Inr r"
      using assms(1) by (simp add: split_by_sentences_def)
  next
    fix u r c
    assume "split_by_words max_size (strip u) = Inr r" "c \<in> set r"
    then show "fits max_size c" by (rule split_by_words_fits)
  qed (simp_all add: fits_def)
  with assms(2) show ?thesis by blast
qed

lemma split_into_chunks_fits:
  assumes "split_into_chunks max_size t = Inr r" and "c \<in> set r"
  shows "fits max_size c"
proof -
  have "\<forall>c\<in>set r. fits max_size c"
  proof (rule split_into_chunks_loop_invariant [where Q = "fits max_size" and W = UNIV])
    show "split_into_chunks_loop max_size (re_split paragraph_breaks [] t) [] [] = Inr r"
      using assms(1) by (simp add: split_into_chunks_def)
  next
    fix u r c
    assume "split_by_sentences max_size (strip u) = Inr r" "c \<in> set r"
    then show "fits max_size c" by (rule split_by_sentences_fits)
  qed (simp_all add: fits_def)
  with assms(2) show ?thesis by blast
qed

lemma hard_cut_exact:
  assumes "0 < max_size" and "p \<in> set (butlast (hard_cut max_size w))"
  shows "int (length p) = max_size"
proof -
  define s where "s = nat max_size"
  define n where "n = (length w + s - 1) div s"
  have s: "0 < s" using assms(1) by (simp add: s_def)
  have hc: "hard_cut max_size w = map (\<lambda>k. take s (drop (k * s) w)) [0..<n]"
    using assms(1) by (simp add: hard_cut_def py_range_def s_def n_def comp_def)
  have "butlast [0..<n] = [0..<n - 1]"
    by (simp add: butlast_conv_take)
  then have "butlast (hard_cut max_size w) = map (\<lambda>k. take s (drop (k * s) w)) [0..<n - 1]"
    unfolding hc by (simp only: map_butlast [symmetric])
  with assms(2) obtain k where k: "k < n - 1" and p: "p = take s (drop (k * s) w)"
    by auto
  from k have "k + 2 \<le> n" by simp
  then have "(k + 2) * s \<le> n * s" by (rule mult_le_mono1)
  also have "n * s \<le> length w + s - 1"
    unfolding n_def by (rule div_times_less_eq_dividend)
  finally have "(k + 1) * s + s \<le> length w + s - 1"
    by (simp add: algebra_simps)
  then have "(k + 1) * s \<le> length w" using s by linarith
  then have "length p = s"
    unfolding p by (simp add: algebra_simps)
  then show ?thesis
    using assms(1) by (simp add: s_def)
qed

subsection \<open>No chunk is blank\<close>

lemma strip_append_nonempty:
  "strip w \<noteq> [] \<Longrightarrow> strip (a @ b @ w) \<noteq> []"
  unfolding strip_eq_Nil_iff by auto

lemma re_split_pieces:
  "\<forall>c cs. (\<forall>k. r (c # cs) \<noteq> Some (Suc k)) \<longrightarrow> P c \<Longrightarrow> \<forall>c\<in>set cur. P c \<Longrightarrow>
   p \<in> set (re_split r cur t) \<Longrightarrow> \<forall>c\<in>set p. P c"
proof (induction r cur t rule: re_split.induct)
  case (1 r cur)
  then show ?case by simp
next
  case (2 r cur c cs)
  consider (none) "r (c # cs) = None" | (zero) "r (c # cs) = Some 0"
    | (suc) k where "r (c # cs) = Some (Suc k)"
    by (metis not0_implies_Suc option.exhaust)
  then show ?case
  proof cases
    case none
    then have "\<forall>k. r (c # cs) \<noteq> Some (Suc k)" by simp
    then have "P c" using "2.prems"(1) by blast
    then have cur: "\<forall>c\<in>set (cur @ [c]). P c" using "2.prems"(2) by simp
    have "p \<in> set (re_split r (cur @ [c]) cs)"
      using "2.prems"(3) none by simp
    then show ?thesis
      using "2.IH"(1) [OF none "2.prems"(1) cur] by blast
  next
    case zero
    then have "\<forall>k. r (c # cs) \<noteq> Some (Suc k)" by simp
    then have "P c" using "2.prems"(1) by blast
    then have cur: "\<forall>c\<in>set (cur @ [c]). P c" using "2.prems"(2) by simp
    have "p \<in> set (re_split r (cur @ [c]) cs)"
      using "2.prems"(3) zero by simp
    then show ?thesis
      using "2.IH"(2) [OF zero refl "2.prems"(1) cur] by blast
  next
    case suc
    then have "p = cur \<or> p \<in> set (re_split r [] (drop k cs))"
      using "2.prems"(3) by simp
    then show ?thesis
    proof
      assume "p = cur"
      then show ?thesis using "2.prems"(2) by simp
    next
      assume "p \<in> set (re_split r [] (drop k cs))"
      then show ?thesis
        using "2.IH"(3) [OF suc refl "2.prems"(1)] by simp
    qed
  qed
qed

lemma re_split_word_boundaries_nospace:
  assumes "p \<in> set (re_split word_boundaries [] t)"
  shows "\<forall>c\<in>set p. \<not> is_space c"
proof (rule re_split_pieces [where r = word_boundaries and cur = "[]" and t = t])
  show "\<forall>c cs. (\<forall>k. word_boundaries (c # cs) \<noteq> Some (Suc k)) \<longrightarrow> \<not> is_space c"
    by (auto simp: word_boundaries_def)
qed (use assms in simp_all)

lemma py_range_less:
  assumes "i \<in> set (py_range stop step)" and "step \<noteq> 0"
  shows "i < stop \<and> 0 < step"
proof -
  have pos: "0 < step"
    using py_range_nonneg [OF assms(1)] assms(2) by simp
  define s where "s = nat step"
  have s: "0 < s" using pos by (simp add: s_def)
  from assms(1) pos obtain k where k: "k < (stop + s - 1) div s" and i: "i = k * s"
    by (auto simp: py_range_def s_def)
  from k have "k + 1 \<le> (stop + s - 1) div s" by simp
  then have "(k + 1) * s \<le> (stop + s - 1) div s * s" by (rule mult_le_mono1)
  also have "\<dots> \<le> stop + s - 1" by (rule div_times_less_eq_dividend)
  finally have "k * s + s \<le> stop + s - 1" by (simp add: algebra_simps)
  then have "i < stop" using s i by linarith
  with pos show ?thesis by simp
qed

lemma hard_cut_nonblank:
  assumes "\<forall>c\<in>set w. \<not> is_space c" and "max_size \<noteq> 0" and "p \<in> set (hard_cut max_size w)"
  shows "strip p \<noteq> []"
proof -
  from assms(3) obtain i where p: "p = take (nat max_size) (drop i w)"
    and i: "i \<in> set (py_range (length w) max_size)"
    unfolding hard_cut_def by auto
  from py_range_less [OF i assms(2)] have "i < length w" "0 < max_size" by simp_all
  then have "p \<noteq> []"
    unfolding p by simp
  then obtain c where c: "c \<in> set p" by (cases p) auto
  then have "c \<in> set w"
    unfolding p using in_set_takeD in_set_dropD by fast
  with assms(1) have "\<not> is_space c" by blast
  with c show ?thesis
    unfolding strip_eq_Nil_iff by blast
qed

lemma split_by_words_nonblank:
  assumes "split_by_words max_size t = Inr r" and "c \<in> set r"
  shows "strip c \<noteq> []"
proof -
  have "\<forall>c\<in>set r. strip c \<noteq> []"
  proof (rule split_by_words_loop_invariant
      [where Q = "\<lambda>c. strip c \<noteq> []" and W = "{w. \<forall>c\<in>set w. \<not> is_space c}"])
    show "split_by_words_loop max_size (re_split word_boundaries [] t) [] [] = Inr r"
      using assms(1) by (simp add: split_by_words_def)
    show "set (re_split word_boundaries [] t) \<subseteq> {w. \<forall>c\<in>set w. \<not> is_space c}"
      using re_split_word_boundaries_nospace [of _ t] by auto
  next
    fix w p
    assume "w \<in> {w. \<forall>c\<in>set w. \<not> is_space c}" "max_size \<noteq> 0" "p \<in> set (hard_cut max_size w)"
    then show "strip p \<noteq> []"
      using hard_cut_nonblank [of w max_size p] by simp
  qed (simp_all add: strip_append_nonempty)
  with assms(2) show ?thesis by blast
qed

lemma split_by_sentences_nonblank:
  assumes "split_by_sentences max_size t = Inr r" and "c \<in> set r"
  shows "strip c \<noteq> []"
proof -
  have "\<forall>c\<in>set r. strip c \<noteq> []"
  proof (rule split_by_sentences_loop_invariant [where Q = "\<lambda>c. strip c \<noteq> []" and W = UNIV])
    show "split_by_sentences_loop max_size (sentence_parts t) [] [] = Inr r"
      using assms(1) by (simp add: split_by_sentences_def)
  next
    fix u r c
    assume "split_by_words max_size (strip u) = Inr r" "c \<in> set r"
    then show "strip c \<noteq> []" by (rule split_by_words_nonblank)
  next
    fix cur u
    assume "strip u \<noteq> []"
    then have "strip (strip u) \<noteq> []" by (rule strip_strip_nonempty)
    then show "strip (cur @ (if cur \<noteq> [] then [SP] else []) @ strip u) \<noteq> []"
      by (rule strip_append_nonempty)
  qed simp_all
  with assms(2) show ?thesis by blast
qed

lemma split_into_chunks_nonblank:
  assumes "split_into_chunks max_size t = Inr r" and "c \<in> set r"
  shows "strip c \<noteq> []"
proof -
  have "\<forall>c\<in>set r. strip c \<noteq> []"
  proof (rule split_into_chunks_loop_invariant [where Q = "\<lambda>c. strip c \<noteq> []" and W = UNIV])
    show "split_into_chunks_loop max_size (re_split paragraph_breaks [] t) [] [] = Inr r"
      using assms(1) by (simp add: split_into_chunks_def)
  next
    fix u r c
    assume "split_by_sentences max_size (strip u) = Inr r" "c \<in> set r"
    then show "strip c \<noteq> []" by (rule split_by_sentences_nonblank)
  next
    fix cur u
    assume "strip u \<noteq> []"
    then have "strip (strip u) \<noteq> []" by (rule strip_strip_nonempty)
    then show "strip (cur @ (if cur \<noteq> [] then [NL, NL] else []) @ strip u) \<noteq> []"
      by (rule strip_append_nonempty)
  qed simp_all
  with assms(2) show ?thesis by blast
qed

lemma enumerate_keep_all:
  "\<forall>c\<in>set cs. strip c \<noteq> [] \<Longrightarrow>
   concat (map (\<lambda>(i, chunk_text). if strip chunk_text \<noteq> [] then [g i chunk_text] else [])
             (enumerate n cs)) =
   map (\<lambda>(i, chunk_text). g i chunk_text) (enumerate n cs)"
  by (induction cs arbitrary: n) auto

subsection \<open>The splitter returns\<close>

lemma split_by_words_loop_returns:
  "max_size \<noteq> 0 \<Longrightarrow> \<exists>r. split_by_words_loop max_size ws chunks cur = Inr r"
  by (induction ws arbitrary: chunks cur) (simp_all add: Let_def)

lemma split_by_words_returns:
  "max_size \<noteq> 0 \<Longrightarrow> \<exists>r. split_by_words max_size t = Inr r"
  by (simp add: split_by_words_def split_by_words_loop_returns)

lemma split_by_sentences_loop_returns:
  assumes "max_size \<noteq> 0"
  shows "\<exists>r. split_by_sentences_loop max_size ss chunks cur = Inr r"
proof (induction ss arbitrary: chunks cur)
  case Nil
  show ?case by simp
next
  case (Cons s ss)
  obtain wc where "split_by_words max_size (strip s) = Inr wc"
    using split_by_words_returns [OF assms] by blast
  with Cons show ?case
    by (simp add: Let_def)
qed

lemma split_by_sentences_returns:
  "max_size \<noteq> 0 \<Longrightarrow> \<exists>r. split_by_sentences max_size t = Inr r"
  by (simp add: split_by_sentences_def split_by_sentences_loop_returns)

lemma split_into_chunks_loop_returns:
  assumes "max_size \<noteq> 0"
  shows "\<exists>r. split_into_chunks_loop max_size ps chunks cur = Inr r"
proof (induction ps arbitrary: chunks cur)
  case Nil
  show ?case by simp
next
  case (Cons p ps)
  obtain sc where "split_by_sentences max_size (strip p) = Inr sc"
    using split_by_sentences_returns [OF assms] by blast
  with Cons show ?case
    by (simp add: Let_def)
qed

lemma split_text_returns:
  assumes "max_size \<noteq> 0" and "strip t \<noteq> []"
  shows "\<exists>chunks. split_text max_size t = Inr chunks"
proof -
  from assms(2) have "t \<noteq> []"
    by (auto simp: strip_def rstrip_def lstrip_def)
  moreover obtain cs where "split_into_chunks max_size (preprocess_text t) = Inr cs"
    using split_into_chunks_loop_returns [OF assms(1)]
    unfolding split_into_chunks_def by blast
  ultimately show ?thesis
    using assms(2) by (simp add: split_text_def Let_def)
qed

section \<open>Properties of the text splitter\<close>

lemmas chunker_defs = py_def NL_def CR_def TAB_def SP_def is_space_def lstrip_def rstrip_def
  strip_def sentence_endings_def paragraph_breaks_def word_boundaries_def is_terminator_def
  sub_cr_def is_blank_def sub_blanks_def sub_newlines_def preprocess_text_def new_TextChunk_def py_range_def hard_cut_def
  split_by_words_def sentence_parts_def split_by_sentences_def split_into_chunks_def
  split_text_def Let_def upt_rec

text \<open>
  Claim C3. Whatever the text and the configured size, every chunk that \<open>split_text\<close>
  returns is at most \<open>max_size\<close> characters long, whichever level produced it
  (single chunk, paragraphs, sentences, words or the hard cut), and its \<open>length\<close> field
  is the length of its text. The slices of the hard cut are at most \<open>max_size\<close> long and
  all but the last are exactly \<open>max_size\<close> long: that level reaches the bound by
  construction, the others only when the text happens to fill a chunk. By
  \<open>split_text_returns\<close> the splitter does return chunks for every text that is not blank
  and every size other than zero.
\<close>

theorem split_text_chunk_bound:
  "(split_text max_size t = Inr chunks \<longrightarrow> c \<in> set chunks \<longrightarrow>
      int (length (text' c)) \<le> max_size \<and> length' c = length (text' c)) \<and>
   (p \<in> set (hard_cut max_size w) \<longrightarrow> int (length p) \<le> max_size) \<and>
   (0 < max_size \<longrightarrow> q \<in> set (butlast (hard_cut max_size w)) \<longrightarrow> int (length q) = max_size)"
proof (intro conjI impI)
  assume run: "split_text max_size t = Inr chunks" and c: "c \<in> set chunks"
  show "int (length (text' c)) \<le> max_size"
  proof (cases "int (length (preprocess_text t)) \<le> max_size")
    case True
    with run have "chunks = [new_TextChunk (preprocess_text t) 0 (Some (length t))]"
      by (auto simp: split_text_def Let_def split: if_splits)
    with c have "text' c = strip (preprocess_text t)"
      by (simp add: new_TextChunk_def)
    then show ?thesis
      using True length_strip_le [of "preprocess_text t"] by simp
  next
    case False
    with run obtain cs where cs: "split_into_chunks max_size (preprocess_text t) = Inr cs"
      and chunks: "chunks = concat (map (\<lambda>(i, chunk_text).
                     if strip chunk_text \<noteq> []
                     then [new_TextChunk chunk_text (int i) (Some (length t))] else [])
                   (enumerate 0 cs))"
      by (auto simp: split_text_def Let_def split: if_splits sum.splits)
    from c obtain i ct where "(i, ct) \<in> set (enumerate 0 cs)"
      and "c = new_TextChunk ct (int i) (Some (length t))"
      unfolding chunks by (auto split: if_splits)
    then have "ct \<in> set cs" and "text' c = strip ct"
      by (auto simp: in_set_enumerate_eq new_TextChunk_def)
    then show ?thesis
      using split_into_chunks_fits [OF cs, of ct] length_strip_le [of ct]
      by (simp add: fits_def)
  qed
  show "length' c = length (text' c)"
    using run c
    by (auto simp: split_text_def Let_def new_TextChunk_def split: if_splits sum.splits)
next
  assume "p \<in> set (hard_cut max_size w)"
  then show "int (length p) \<le> max_size"
    using hard_cut_fits by (simp add: fits_def)
next
  assume "0 < max_size" "q \<in> set (butlast (hard_cut max_size w))"
  then show "int (length q) = max_size"
    by (rule hard_cut_exact)
qed

theorem split_text_chunk_bound_witness:
  "split_text 5 (py ''abcdefgh ij'') =
     Inr [new_TextChunk (py ''abcde'') 0 (Some 11), new_TextChunk (py ''fgh'') 1 (Some 11),
          new_TextChunk (py ''ij'') 2 (Some 11)] \<and>
   int (length (text' (new_TextChunk (py ''fgh'') 1 (Some 11)))) \<le> 5 \<and>
   hard_cut 5 (py ''abcdefgh'') = [py ''abcde'', py ''fgh''] \<and>
   int (length (py ''fgh'')) \<le> 5 \<and> int (length (py ''abcde'')) = 5"
  using split_text_chunk_bound [of 5 "py ''abcdefgh ij''"
      "[new_TextChunk (py ''abcde'') 0 (Some 11), new_TextChunk (py ''fgh'') 1 (Some 11),
        new_TextChunk (py ''ij'') 2 (Some 11)]"
      "new_TextChunk (py ''fgh'') 1 (Some 11)" "py ''fgh''" "py ''abcdefgh''" "py ''abcde''"]
  by (simp add: chunker_defs)

text \<open>
  Claim C4. The indices of the chunks returned by \<open>split_text\<close> are \<open>0, 1, \<dots>, n - 1\<close>
  in this order, \<open>n\<close> being the number of chunks returned: \<open>enumerate\<close> numbers the
  strings of \<open>split_into_chunks\<close>, none of which is blank, so the filter of \<open>split_text\<close>
  skips none.
\<close>

theorem split_text_indices:
  assumes "split_text max_size t = Inr chunks"
  shows "map index chunks = map int [0..<length chunks]"
proof (cases "int (length (preprocess_text t)) \<le> max_size")
  case True
  with assms have "chunks = [new_TextChunk (preprocess_text t) 0 (Some (length t))]"
    by (auto simp: split_text_def Let_def split: if_splits)
  then show ?thesis
    by (simp add: new_TextChunk_def)
next
  case False
  with assms obtain cs where cs: "split_into_chunks max_size (preprocess_text t) = Inr cs"
    and chunks: "chunks = concat (map (\<lambda>(i, chunk_text).
                   if strip chunk_text \<noteq> []
                   then [new_TextChunk chunk_text (int i) (Some (length t))] else [])
                 (enumerate 0 cs))"
    by (auto simp: split_text_def Let_def split: if_splits sum.splits)
  have "\<forall>c\<in>set cs. strip c \<noteq> []"
    using split_into_chunks_nonblank [OF cs] by blast
  then have eq: "chunks = map (\<lambda>(i, chunk_text). new_TextChunk chunk_text (int i) (Some (length t)))
                   (enumerate 0 cs)"
    unfolding chunks by (rule enumerate_keep_all)
  have "map index chunks = map (int \<circ> fst) (enumerate 0 cs)"
    unfolding eq by (simp add: new_TextChunk_def case_prod_beta comp_def)
  also have "\<dots> = map int [0..<length cs]"
    by (simp add: map_map [symmetric] del: map_map)
  also have "length cs = length chunks"
    unfolding eq by simp
  finally show ?thesis .
qed

theorem split_text_indices_witness:
  "split_text 5 (py ''ab cd ef. gh'') =
     Inr [new_TextChunk (py ''ab cd'') 0 (Some 12), new_TextChunk (py ''ef.'') 1 (Some 12),
          new_TextChunk (py ''gh'') 2 (Some 12)] \<and>
   map index [new_TextChunk (py ''ab cd'') 0 (Some 12), new_TextChunk (py ''ef.'') 1 (Some 12),
          new_TextChunk (py ''gh'') 2 (Some 12)] = [0, 1, 2]"
  using split_text_indices [of 5 "py ''ab cd ef. gh''"
      "[new_TextChunk (py ''ab cd'') 0 (Some 12), new_TextChunk (py ''ef.'') 1 (Some 12),
        new_TextChunk (py ''gh'') 2 (Some 12)]"]
  by (simp add: chunker_defs)

text \<open>
  Claim C2 (coverage) fails on the code. \<open>sentence_parts\<close> puts the terminators back
  only after a sentence that is not blank, so the terminators that follow an empty
  sentence are dropped: the text \<^verbatim>\<open>... abcdef\<close> split with size 5 gives the chunks
  \<^verbatim>\<open>abcde\<close> and \<^verbatim>\<open>f\<close>, and the three dots of the normalized text are in no chunk.
\<close>

theorem split_text_loses_terminators:
  "preprocess_text (py ''... abcdef'') = py ''... abcdef'' \<and>
   split_text 5 (py ''... abcdef'') =
     Inr [new_TextChunk (py ''abcde'') 0 (Some 10), new_TextChunk (py ''f'') 1 (Some 10)] \<and>
   non_whitespace (concat (map text'
     [new_TextChunk (py ''abcde'') 0 (Some 10), new_TextChunk (py ''f'') 1 (Some 10)])) =
     py ''abcdef'' \<and>
   non_whitespace (preprocess_text (py ''... abcdef'')) = py ''...abcdef''"
  by (simp add: chunker_defs non_whitespace_def)

section \<open>Properties of the rate limiter\<close>

lemma wait_if_needed_min_interval [simp]:
  "min_interval (wait_if_needed reading rl) = min_interval rl"
  by (simp add: wait_if_needed_def Let_def)

lemma wait_if_needed_gap:
  assumes "0 \<le> snd reading"
  shows "last_request_time rl + min_interval rl \<le> last_request_time (wait_if_needed reading rl)"
  using assms by (simp add: wait_if_needed_def Let_def)

lemma grant_times_length [simp]: "length (grant_times rl readings) = length readings"
  by (induction readings arbitrary: rl) (simp_all add: Let_def)

lemma grant_times_first_gap:
  "readings \<noteq> [] \<Longrightarrow> \<forall>r\<in>set readings. 0 \<le> snd r \<Longrightarrow>
   last_request_time rl + min_interval rl \<le> hd (grant_times rl readings)"
  by (cases readings) (simp_all add: wait_if_needed_gap)

lemma grant_times_gaps:
  "\<forall>r\<in>set readings. 0 \<le> snd r \<Longrightarrow>
     (\<forall>i. Suc i < length readings \<longrightarrow>
        grant_times rl readings ! i + min_interval rl \<le> grant_times rl readings ! Suc i) \<and>
     (readings \<noteq> [] \<longrightarrow>
        last_request_time rl + min_interval rl \<le> grant_times rl readings ! 0)"
proof (induction readings arbitrary: rl)
  case Nil
  show ?case by simp
next
  case (Cons reading readings)
  then have r: "0 \<le> snd reading" and rest: "\<forall>r\<in>set readings. 0 \<le> snd r"
    by simp_all
  let ?rl = "wait_if_needed reading rl"
  from Cons.IH [of ?rl] rest
  have IH1: "\<And>i. Suc i < length readings \<Longrightarrow>
      grant_times ?rl readings ! i + min_interval rl \<le> grant_times ?rl readings ! Suc i"
    and IH2: "readings \<noteq> [] \<Longrightarrow>
      last_request_time ?rl + min_interval rl \<le> grant_times ?rl readings ! 0"
    by simp_all
  show ?case
  proof (intro impI conjI allI)
    show "last_request_time rl + min_interval rl \<le> grant_times rl (reading # readings) ! 0"
      using wait_if_needed_gap [OF r, of rl] by simp
    fix i
    assume i: "Suc i < length (reading # readings)"
    show "grant_times rl (reading # readings) ! i + min_interval rl
          \<le> grant_times rl (reading # readings) ! Suc i"
    proof (cases i)
      case 0
      with i have "readings \<noteq> []" by auto
      from IH2 [OF this] show ?thesis by (simp add: 0)
    next
      case (Suc j)
      with i have "Suc j < length readings" by simp
      from IH1 [OF this] show ?thesis by (simp add: Suc)
    qed
  qed
qed

text \<open>
  Claim C6. In every sequence of calls of \<open>wait_if_needed\<close>, as long as the clock does not
  run backwards between the two readings of a call and \<^verbatim>\<open>time.sleep\<close> does not return
  early, two consecutive grant times are at least \<open>min_interval\<close> apart, and the first is
  at least \<open>min_interval\<close> after the grant recorded before the sequence. The gap is between
  the times recorded at the grants. For a limiter built by the constructor,
  \<open>min_interval\<close> is one over the rate.
\<close>

theorem grant_times_spaced:
  "(new_RateLimiter rate env_rate = Inr rl \<longrightarrow> min_interval rl = 1 / requests_per_second rl) \<and>
   ((\<forall>r\<in>set readings. 0 \<le> snd r) \<longrightarrow>
      (\<forall>i. Suc i < length readings \<longrightarrow>
         grant_times rl readings ! i + min_interval rl \<le> grant_times rl readings ! Suc i) \<and>
      (readings \<noteq> [] \<longrightarrow>
         last_request_time rl + min_interval rl \<le> grant_times rl readings ! 0))"
proof (intro conjI impI)
  assume "new_RateLimiter rate env_rate = Inr rl"
  then show "min_interval rl = 1 / requests_per_second rl"
    by (auto simp: new_RateLimiter_def Let_def split: if_splits option.splits)
next
  assume ok: "\<forall>r\<in>set readings. 0 \<le> snd r"
  show "\<forall>i. Suc i < length readings \<longrightarrow>
         grant_times rl readings ! i + min_interval rl \<le> grant_times rl readings ! Suc i"
    using grant_times_gaps [OF ok] by blast
  assume "readings \<noteq> []"
  then show "last_request_time rl + min_interval rl \<le> grant_times rl readings ! 0"
    using grant_times_gaps [OF ok] by blast
qed

theorem grant_times_spaced_witness:
  "new_RateLimiter None None =
     Inr \<lparr>requests_per_second = 35, min_interval = 1 / 35, last_request_time = 0\<rparr> \<and>
   grant_times \<lparr>requests_per_second = 35, min_interval = 1 / 35, last_request_time = 0\<rparr>
     [(100, 0), (100 + 1 / 100, 1 / 1000), (100 + 1 / 2, 0)] =
     [100, 100 + 1 / 35 + 1 / 1000, 100 + 1 / 2] \<and>
   (100 :: real) + 1 / 35 \<le> 100 + 1 / 35 + 1 / 1000"
  using grant_times_spaced [of None None
      "\<lparr>requests_per_second = 35, min_interval = 1 / 35, last_request_time = 0\<rparr>"
      "[(100, 0), (100 + 1 / 100, 1 / 1000), (100 + 1 / 2, 0)]"]
  by (simp add: new_RateLimiter_def wait_if_needed_def Let_def)

section \<open>Properties of the token manager\<close>

lemmas token_defs = get_iam_token_def create_jwt_token_def exchange_jwt_for_iam_def
  is_token_expired_def getitem_def dict_get_def exchange_fails_def example_manager_def
  example_auth_world_def minutes_def hours_def py_def Let_def

text \<open>
  Claim C7. While a token is cached and the moment of the call plus ten minutes is before
  its expiry, a call without forced refresh returns the cached token, leaves the manager
  as it is and posts nothing to the identity endpoint; so do two calls in a row. When the
  moment of the call plus ten minutes has reached the expiry, the call posts exactly one
  assertion, provided the assertion can be signed (without a signed assertion there is
  nothing to post).
\<close>

theorem get_iam_token_reuse:
  "(truthy (iam_token tm) \<longrightarrow> token_expires_at tm = Some expires_at \<longrightarrow>
      now_at_check w1 + minutes 10 < expires_at \<longrightarrow> now_at_check w2 + minutes 10 < expires_at \<longrightarrow>
      get_iam_token w1 False tm = (Inr (iam_token tm), tm, []) \<and>
      get_iam_token w2 False (fst (snd (get_iam_token w1 False tm))) =
        (Inr (iam_token tm), tm, [])) \<and>
   (truthy (iam_token tm) \<longrightarrow> token_expires_at tm = Some expires_at \<longrightarrow>
      expires_at \<le> now_at_check w + minutes 10 \<longrightarrow> create_jwt_token w tm = Inr jwt \<longrightarrow>
      snd (snd (get_iam_token w False tm)) = [jwt])"
proof (intro conjI impI)
  assume a: "truthy (iam_token tm)" "token_expires_at tm = Some expires_at"
    "now_at_check w1 + minutes 10 < expires_at" "now_at_check w2 + minutes 10 < expires_at"
  then show first: "get_iam_token w1 False tm = (Inr (iam_token tm), tm, [])"
    by (simp add: get_iam_token_def is_token_expired_def)
  from a show "get_iam_token w2 False (fst (snd (get_iam_token w1 False tm))) =
      (Inr (iam_token tm), tm, [])"
    unfolding first by (simp add: get_iam_token_def is_token_expired_def)
next
  assume "truthy (iam_token tm)" "token_expires_at tm = Some expires_at"
    "expires_at \<le> now_at_check w + minutes 10" "create_jwt_token w tm = Inr jwt"
  then show "snd (snd (get_iam_token w False tm)) = [jwt]"
    by (simp add: get_iam_token_def is_token_expired_def Let_def split: sum.splits)
qed

theorem get_iam_token_reuse_witness:
  "get_iam_token (example_auth_world 0 RequestFailed) False example_manager =
     (Inr (JStr (py ''t1'')), example_manager, []) \<and>
   get_iam_token (example_auth_world (hours 1) RequestFailed) False example_manager =
     (Inr (JStr (py ''t1'')), example_manager, []) \<and>
   snd (snd (get_iam_token
     (example_auth_world (hours 12) (Body (JObj [(py ''iamToken'', JStr (py ''t2''))])))
     False example_manager)) = [py ''jwt'']"
  using get_iam_token_reuse [of example_manager "hours 12"
      "example_auth_world 0 RequestFailed" "example_auth_world (hours 1) RequestFailed"
      "example_auth_world (hours 12) (Body (JObj [(py ''iamToken'', JStr (py ''t2''))]))"
      "py ''jwt''"]
  by (simp add: token_defs)

text \<open>
  Claim C8. An exchange fails when the request raises (network error, or a status that is
  not 2xx), when the body is not JSON, or when the body has no member \<^verbatim>\<open>iamToken\<close>. Then
  \<open>get_iam_token\<close> raises \<open>YandexAuthError\<close> and the token manager, with its cached token
  and expiry, is what it was before the call. More generally, whenever \<open>get_iam_token\<close>
  raises, the token manager is unchanged.
\<close>

theorem get_iam_token_failure_keeps_cache:
  "(get_iam_token w force_refresh tm = (Inl e, tm1, posted) \<longrightarrow> tm1 = tm) \<and>
   (force_refresh \<or> \<not> truthy (iam_token tm) \<or> is_token_expired (now_at_check w) tm \<longrightarrow>
      create_jwt_token w tm = Inr jwt \<longrightarrow> exchange_fails (post_tokens w jwt) \<longrightarrow>
      (\<exists>cause. get_iam_token w force_refresh tm = (Inl (YandexAuthError cause), tm, [jwt])))"
proof (intro conjI impI)
  assume "get_iam_token w force_refresh tm = (Inl e, tm1, posted)"
  then show "tm1 = tm"
    by (auto simp: get_iam_token_def Let_def split: if_splits sum.splits)
next
  assume reach: "force_refresh \<or> \<not> truthy (iam_token tm) \<or> is_token_expired (now_at_check w) tm"
    and jwt: "create_jwt_token w tm = Inr jwt"
    and fails: "exchange_fails (post_tokens w jwt)"
  from reach have unfold: "get_iam_token w force_refresh tm =
      (case exchange_jwt_for_iam w jwt of
         Inl e \<Rightarrow> (Inl (YandexAuthError e), tm, [jwt])
       | Inr iam_response \<Rightarrow>
           (case getitem iam_response (py ''iamToken'') of
              Inl e \<Rightarrow> (Inl (YandexAuthError e), tm, [jwt])
            | Inr token \<Rightarrow>
                (let expires_at_str = dict_get iam_response (py ''expiresAt'');
                     expires_at =
                       (if truthy expires_at_str
                        then (case parse_expires_at (fromisoformat w) expires_at_str of
                                Some d \<Rightarrow> d
                              | None \<Rightarrow> now_at_store w + hours 12)
                        else now_at_store w + hours 12)
                 in (Inr token,
                     tm\<lparr>iam_token := token, token_expires_at := Some expires_at\<rparr>,
                     [jwt]))))"
    unfolding get_iam_token_def using jwt by auto
  show "\<exists>cause. get_iam_token w force_refresh tm = (Inl (YandexAuthError cause), tm, [jwt])"
  proof (cases "post_tokens w jwt")
    case RequestFailed
    then show ?thesis unfolding unfold by (simp add: exchange_jwt_for_iam_def)
  next
    case BodyNotJson
    then show ?thesis unfolding unfold by (simp add: exchange_jwt_for_iam_def)
  next
    case (Body b)
    with fails obtain c where "getitem b (py ''iamToken'') = Inl c"
      by (auto simp: exchange_fails_def isl_def)
    with Body show ?thesis unfolding unfold by (simp add: exchange_jwt_for_iam_def)
  qed
qed

theorem get_iam_token_failure_keeps_cache_witness:
  "get_iam_token (example_auth_world 0 RequestFailed) True example_manager =
     (Inl (YandexAuthError RequestException), example_manager, [py ''jwt'']) \<and>
   get_iam_token (example_auth_world 0 (Body (JObj []))) True example_manager =
     (Inl (YandexAuthError KeyError), example_manager, [py ''jwt''])"
  using get_iam_token_failure_keeps_cache [of "example_auth_world 0 RequestFailed" True
      example_manager "YandexAuthError RequestException" example_manager "[py ''jwt'']"
      "py ''jwt''"]
  by (simp add: token_defs)

section \<open>Lemmas about the synthesizer\<close>

lemma retry_loop_chunk:
  "retry_loop w c ct p attempts self = (res, c1, self1) \<Longrightarrow>
   (res = Inr (Some p) \<and> c1 = c\<lparr>processed := True, audio_file := Some p\<rparr>) \<or>
   ((res = Inr None \<or> isl res) \<and> c1 = c)"
proof (induction attempts arbitrary: self)
  case Nil
  then show ?case by auto
next
  case (Cons attempt rest)
  define self1' where "self1' = self\<lparr>rate_limiter :=
      wait_if_needed (clock w (acquired self)) (rate_limiter self), acquired := Suc (acquired self)\<rparr>"
  define result where "result = outcome w (length (synthesize_calls self1')) ct"
  define self2 where "self2 = self1'\<lparr>synthesize_calls := synthesize_calls self1' @ [ct]\<rparr>"
  define self3 where "self3 = self2\<lparr>request_stats := request_stats self2 @ [False]\<rparr>"
  define self4 where "self4 = (\<lambda>sleep_time. self3\<lparr>slept := slept self3 @ [sleep_time],
      refreshed := Suc (refreshed self3)\<rparr>)"
  have unfold: "retry_loop w c ct p (attempt # rest) self =
      (if result = Created
       then (Inr (Some p), c\<lparr>processed := True, audio_file := Some p\<rparr>,
             self2\<lparr>request_stats := request_stats self2 @ [True]\<rparr>)
       else if int attempt < max_retries self - 1
            then (case backoff_sleep w (retry_delay self) attempt of
                    Inl e \<Rightarrow> (Inl e, c, self3)
                  | Inr sleep_time \<Rightarrow> retry_loop w c ct p rest (self4 sleep_time))
            else (Inl (RetriesExhausted (index c) (max_retries self) result), c, self3))"
    unfolding self1'_def result_def self2_def self3_def self4_def
    by (auto simp: Let_def split: sum.splits)
  show ?case
  proof (cases "result = Created")
    case True
    with Cons.prems unfold show ?thesis by auto
  next
    case False
    show ?thesis
    proof (cases "int attempt < max_retries self - 1")
      case True
      show ?thesis
      proof (cases "backoff_sleep w (retry_delay self) attempt")
        case (Inl e)
        with True False Cons.prems unfold show ?thesis by auto
      next
        case (Inr sleep_time)
        with True False Cons.prems unfold
        have "retry_loop w c ct p rest (self4 sleep_time) = (res, c1, self1)"
          by simp
        then show ?thesis by (rule Cons.IH)
      qed
    next
      case last: False
      with False Cons.prems unfold show ?thesis by auto
    qed
  qed
qed

lemma synthesize_chunk_chunk:
  assumes "synthesize_chunk w c output_path self = (res, c1, self1)" and "chunk_ok c"
  shows "chunk_ok c1 \<and> text' c1 = text' c \<and> index c1 = index c \<and>
         audio_file c1 = (case res of Inr a \<Rightarrow> a | Inl e \<Rightarrow> None)"
proof (cases "processed c")
  case True
  with assms show ?thesis
    by (auto simp: synthesize_chunk_def)
next
  case False
  with assms(2) have none: "audio_file c = None"
    by (simp add: chunk_ok_def)
  have "(\<exists>p. res = Inr (Some p) \<and> c1 = c\<lparr>processed := True, audio_file := Some p\<rparr>) \<or>
        ((res = Inr None \<or> isl res) \<and> c1 = c)"
    using assms(1) False retry_loop_chunk
    by (fastforce simp: synthesize_chunk_def Let_def split: if_splits option.splits)
  then show ?thesis
    using assms(2) none by (auto simp: chunk_ok_def isl_def)
qed

lemma synthesize_loop_chunks:
  "synthesize_loop w chunks self = (audio_files, n, chunks1, self1) \<Longrightarrow>
   \<forall>c\<in>set chunks. chunk_ok c \<Longrightarrow>
   length chunks1 = length chunks \<and> audio_files = map audio_file chunks1 \<and>
   map text' chunks1 = map text' chunks \<and> map index chunks1 = map index chunks \<and>
   (\<forall>c\<in>set chunks1. chunk_ok c)"
proof (induction chunks arbitrary: self audio_files n chunks1 self1)
  case Nil
  then show ?case by simp
next
  case (Cons chunk chunks)
  obtain res c1 s1 where head: "synthesize_chunk w chunk None self = (res, c1, s1)"
    by (cases "synthesize_chunk w chunk None self") auto
  obtain afs m cs s2 where tail: "synthesize_loop w chunks s1 = (afs, m, cs, s2)"
    by (cases "synthesize_loop w chunks s1") auto
  have ok: "chunk_ok chunk" and oks: "\<forall>c\<in>set chunks. chunk_ok c"
    using Cons.prems(2) by simp_all
  note h = synthesize_chunk_chunk [OF head ok]
  note t = Cons.IH [OF tail oks]
  from Cons.prems(1) head tail
  have "chunks1 = c1 # cs" and "audio_files = (case res of Inr a \<Rightarrow> a | Inl e \<Rightarrow> None) # afs"
    by (auto split: sum.splits)
  with h t show ?case by simp
qed




subsection \<open>Unfolding the definitions in example runs\<close>

lemmas synth_defs = synthesize_chunks_def synthesize_chunk_def clean_text_for_synthesis_def
  allowed_char_def wait_if_needed_def backoff_sleep_def new_SpeechSynthesizer_def new_RateLimiter_def
  new_TextChunk_def chunk_ok_def py_def strip_def lstrip_def rstrip_def is_space_def SP_def
  Let_def upt_rec

section \<open>Properties of the synthesizer\<close>

text \<open>
  Claim C10. For a chunk whose \<open>processed\<close> flag is set, \<open>synthesize_chunk\<close> returns the
  audio file recorded on the chunk and leaves the chunk and the synthesizer as they
  are: no slot of the rate limiter is acquired, \<^verbatim>\<open>model.synthesize\<close> is not called, and
  nothing is slept or refreshed.
\<close>

theorem synthesize_chunk_processed:
  "processed chunk \<Longrightarrow>
   synthesize_chunk w chunk output_path self = (Inr (audio_file chunk), chunk, self)"
  by (simp add: synthesize_chunk_def)

theorem synthesize_chunk_processed_witness:
  "synthesize_chunk example_world
     ((new_TextChunk (py ''a'') 0 None)\<lparr>processed := True, audio_file := Some (py ''0.wav'')\<rparr>)
     None example_synthesizer =
   (Inr (Some (py ''0.wav'')),
    (new_TextChunk (py ''a'') 0 None)\<lparr>processed := True, audio_file := Some (py ''0.wav'')\<rparr>,
    example_synthesizer)"
  using synthesize_chunk_processed [of
      "(new_TextChunk (py ''a'') 0 None)\<lparr>processed := True, audio_file := Some (py ''0.wav'')\<rparr>"
      example_world None example_synthesizer]
  by simp



text \<open>
  With a negative delay and more than one attempt configured, the back-off sleep after
  the first failed attempt raises, and the call ends there after one call of
  \<^verbatim>\<open>model.synthesize\<close>.
\<close>

lemma synthesize_chunk_negative_delay:
  "fst (synthesize_chunk example_world (new_TextChunk (py ''b'') 1 None) None
          (example_synthesizer\<lparr>retry_delay := - 1\<rparr>)) = Inl SleepValueError \<and>
   synthesize_calls (snd (snd
     (synthesize_chunk example_world (new_TextChunk (py ''b'') 1 None) None
        (example_synthesizer\<lparr>retry_delay := - 1\<rparr>)))) = [py ''b'']"
  by (simp add: synth_defs example_world_def example_synthesizer_def)

text \<open>
  Claim C1 fails on the code: \<open>synthesize_chunks\<close> filters the failure markers out of its
  result. With three chunks of which the second always fails, the result has two
  entries, and the entry at position 1 is the file of the chunk of index 2.
\<close>

theorem synthesize_chunks_drops_failed:
  "fst (synthesize_chunks example_world
          [new_TextChunk (py ''a'') 0 None, new_TextChunk (py ''b'') 1 None,
           new_TextChunk (py ''c'') 2 None] example_synthesizer) =
     Inr [py ''0.wav'', py ''2.wav''] \<and>
   length [py ''0.wav'', py ''2.wav''] \<noteq>
     length [new_TextChunk (py ''a'') 0 None, new_TextChunk (py ''b'') 1 None,
             new_TextChunk (py ''c'') 2 None]"
  by (simp add: synth_defs example_world_def example_synthesizer_def)

text \<open>
  Claim C1 as amended. For a run over a non-empty list of chunks that returns, the
  chunks after the run are the input chunks in the same order (same number, texts and
  indices), and the output is the list of the audio files recorded on them, in that
  order, with nothing for a chunk that has none: the output has one entry per
  synthesized chunk, so at most as many entries as input chunks, and as many exactly when
  every chunk is synthesized.
\<close>

theorem synthesize_chunks_output:
  assumes "\<forall>c\<in>set chunks. chunk_ok c"
    and "fst (synthesize_chunks w chunks self) = Inr files"
    and "chunks1 = fst (snd (synthesize_chunks w chunks self))"
  shows "files = [p. Some p \<leftarrow> map audio_file chunks1] \<and>
         length chunks1 = length chunks \<and>
         map text' chunks1 = map text' chunks \<and> map index chunks1 = map index chunks \<and>
         length files = length (filter processed chunks1) \<and>
         length files \<le> length chunks \<and>
         (length files = length chunks \<longleftrightarrow> (\<forall>c\<in>set chunks1. processed c))"
proof -
  obtain afs n cs s where loop: "synthesize_loop w chunks self = (afs, n, cs, s)"
    by (cases "synthesize_loop w chunks self") auto
  from assms(2) have ne: "chunks \<noteq> []"
    by (auto simp: synthesize_chunks_def)
  from assms(2,3) loop ne have files: "files = [p. Some p \<leftarrow> afs]" and cs: "chunks1 = cs"
    by (auto simp: synthesize_chunks_def Let_def split: if_splits)
  note l = synthesize_loop_chunks [OF loop assms(1)]
  have count: "length [p. Some p \<leftarrow> map audio_file xs] = length (filter processed xs)"
    if "\<forall>c\<in>set xs. chunk_ok c" for xs
    using that by (induction xs) (auto simp: chunk_ok_def)
  have len: "length files = length (filter processed chunks1)"
    using l count [of cs] by (simp add: files cs)
  have "length (filter processed chunks1) \<le> length chunks1"
    by (rule length_filter_le)
  moreover have "length (filter processed chunks1) = length chunks1 \<longleftrightarrow>
      (\<forall>c\<in>set chunks1. processed c)"
    by (metis filter_True filter_id_conv length_filter_less linorder_neq_iff)
  ultimately show ?thesis
    using l len by (simp add: files cs)
qed

theorem synthesize_chunks_output_witness:
  "chunk_ok (new_TextChunk (py ''a'') 0 None) \<and> chunk_ok (new_TextChunk (py ''b'') 1 None) \<and>
   fst (synthesize_chunks example_world
          [new_TextChunk (py ''a'') 0 None, new_TextChunk (py ''b'') 1 None] example_synthesizer) =
     Inr [py ''0.wav''] \<and>
   map audio_file (fst (snd (synthesize_chunks example_world
          [new_TextChunk (py ''a'') 0 None, new_TextChunk (py ''b'') 1 None] example_synthesizer))) =
     [Some (py ''0.wav''), None]"
  using synthesize_chunks_output [of
      "[new_TextChunk (py ''a'') 0 None, new_TextChunk (py ''b'') 1 None]"
      example_world example_synthesizer "[py ''0.wav'']"
      "fst (snd (synthesize_chunks example_world
          [new_TextChunk (py ''a'') 0 None, new_TextChunk (py ''b'') 1 None] example_synthesizer))"]
  by (simp add: synth_defs example_world_def example_synthesizer_def)



end
